theory Spec2Isabelle
  imports Complex_Main "HOL-Library.Word"
begin

section \<open>Failures\<close>

text \<open>
  The library signals nothing by value.  Two events of the C++ code are made visible in
  the model: the failed \<^verbatim>\<open>assert(n % 2 == 0)\<close> of the floating-point drivers, and an
  index that leaves a \<^verbatim>\<open>std::vector\<close> (undefined behaviour of \<^verbatim>\<open>operator[]\<close>).
\<close>

datatype error = EvenDimensionRequired | OutOfRange

definition vget :: "'a list \<Rightarrow> nat \<Rightarrow> error + 'a" where
  "vget xs i = (if i < length xs then Inr (xs ! i) else Inl OutOfRange)"

definition vset :: "'a list \<Rightarrow> nat \<Rightarrow> 'a \<Rightarrow> error + 'a list" where
  "vset xs i v = (if i < length xs then Inr (xs[i := v]) else Inl OutOfRange)"

text \<open>Sequencing: the first failure is the result.\<close>

definition and_then :: "error + 'a \<Rightarrow> ('a \<Rightarrow> error + 'b) \<Rightarrow> error + 'b" where
  "and_then r f = (case r of Inl e \<Rightarrow> Inl e | Inr v \<Rightarrow> f v)"

definition vget2 :: "'a list list \<Rightarrow> nat \<Rightarrow> nat \<Rightarrow> error + 'a" where
  "vget2 xss i j = and_then (vget xss i) (\<lambda>xs. vget xs j)"

definition vset2 :: "'a list list \<Rightarrow> nat \<Rightarrow> nat \<Rightarrow> 'a \<Rightarrow> error + 'a list list" where
  "vset2 xss i j v =
     and_then (vget xss i) (\<lambda>xs. and_then (vset xs j v) (\<lambda>xs'. Inr (xss[i := xs'])))"

text \<open>A \<^verbatim>\<open>for\<close> loop whose body may fail: the first failure ends the loop.\<close>

fun for_each :: "('i \<Rightarrow> 's \<Rightarrow> error + 's) \<Rightarrow> 'i list \<Rightarrow> 's \<Rightarrow> error + 's" where
  "for_each body [] s = Inr s"
| "for_each body (i # is) s = and_then (body i s) (for_each body is)"

section \<open>The recursive integer engine (\<^verbatim>\<open>recursive_int\<close>, \<^verbatim>\<open>hafnian_int\<close>)\<close>

text \<open>
  \<^verbatim>\<open>long long int\<close> is a 64-bit word; \<^verbatim>\<open>int s\<close> and \<^verbatim>\<open>int w\<close> are mathematical
  integers (they stay far inside 32 bits), the degree bound and all indices are naturals.
\<close>

type_synonym llint = "64 word"

text \<open>The loop bounds \<^verbatim>\<open>for (j = 1; j < s-2; j++)\<close> with \<^verbatim>\<open>int s\<close>.\<close>

definition js :: "int \<Rightarrow> nat list" where
  "js s = [1 ..< nat (s - 2)]"

text \<open>
  Lines 307--318: \<^verbatim>\<open>c\<close> is allocated with \<^verbatim>\<open>(s-2)*(s-3)/2\<close> rows of \<^verbatim>\<open>n+1\<close> zeros and
  filled row by row; the state of the loop is \<^verbatim>\<open>(c, i)\<close>.
\<close>

definition reduce_row :: "llint list list \<Rightarrow> nat \<Rightarrow> nat \<Rightarrow> nat \<Rightarrow>
    llint list list \<times> nat \<Rightarrow> error + llint list list \<times> nat" where
  "reduce_row b n j k = (\<lambda>(c, i).
     and_then
       (for_each (\<lambda>u c. and_then (vget2 b ((j + 1) * (j + 2) div 2 + k + 2) u) (vset2 c i u))
          [0 ..< n + 1] c)
       (\<lambda>c'. Inr (c', i + 1)))"

definition reduce :: "llint list list \<Rightarrow> int \<Rightarrow> nat \<Rightarrow> error + llint list list" where
  "reduce b s n =
     and_then
       (for_each (\<lambda>j. for_each (reduce_row b n j) [0 ..< j]) (js s)
          (replicate (nat ((s - 2) * (s - 3) div 2)) (replicate (n + 1) 0), 0))
       (\<lambda>(c, i). Inr c)"

text \<open>Lines 322--329: \<^verbatim>\<open>e = g\<close>, then \<^verbatim>\<open>e[u+v+1] += g[u]*b[0][v]\<close>.\<close>

definition augment_g_cell :: "llint list list \<Rightarrow> llint list \<Rightarrow> nat \<Rightarrow> nat \<Rightarrow>
    llint list \<Rightarrow> error + llint list" where
  "augment_g_cell b g u v e =
     and_then (vget g u) (\<lambda>gu.
     and_then (vget2 b 0 v) (\<lambda>bv.
     and_then (vget e (u + v + 1)) (\<lambda>ev.
       vset e (u + v + 1) (ev + gu * bv))))"

definition augment_g :: "llint list list \<Rightarrow> llint list \<Rightarrow> nat \<Rightarrow> error + llint list" where
  "augment_g b g n =
     for_each (\<lambda>u. for_each (augment_g_cell b g u) [0 ..< n - u]) [0 ..< n] g"

text \<open>Lines 331--340: the update of \<^verbatim>\<open>c\<close> by the products of the dropped vertices' rows.\<close>

definition augment_c_cell :: "llint list list \<Rightarrow> nat \<Rightarrow> nat \<Rightarrow> nat \<Rightarrow> nat \<Rightarrow>
    llint list list \<Rightarrow> error + llint list list" where
  "augment_c_cell b j k u v c =
     and_then (vget2 b ((j + 1) * (j + 2) div 2) u) (\<lambda>bju.
     and_then (vget2 b ((k + 1) * (k + 2) div 2 + 1) v) (\<lambda>bkv.
     and_then (vget2 b ((k + 1) * (k + 2) div 2) u) (\<lambda>bku.
     and_then (vget2 b ((j + 1) * (j + 2) div 2 + 1) v) (\<lambda>bjv.
     and_then (vget2 c (j * (j - 1) div 2 + k) (u + v + 1)) (\<lambda>cv.
       vset2 c (j * (j - 1) div 2 + k) (u + v + 1) (cv + (bju * bkv + bku * bjv)))))))"

definition augment_c :: "llint list list \<Rightarrow> int \<Rightarrow> nat \<Rightarrow> llint list list \<Rightarrow>
    error + llint list list" where
  "augment_c b s n c =
     for_each (\<lambda>j. for_each (\<lambda>k. for_each (\<lambda>u. for_each (augment_c_cell b j k u)
        [0 ..< n - u]) [0 ..< n]) [0 ..< j]) (js s) c"

text \<open>
  \<^verbatim>\<open>recursive_int\<close> itself.  The recursion is on \<^verbatim>\<open>s - 2\<close> with the only exit at
  \<^verbatim>\<open>s == 0\<close>, so for odd or negative \<^verbatim>\<open>s\<close> it never returns: the result \<open>None\<close>.
\<close>

partial_function (option) recursive_int ::
    "llint list list \<Rightarrow> int \<Rightarrow> int \<Rightarrow> llint list \<Rightarrow> nat \<Rightarrow> (error + llint) option" where
  "recursive_int b s w g n =
     (if s = 0 then
        Some (and_then (vget g n) (\<lambda>gn. Inr (of_int w * gn)))
      else
        (case reduce b s n of
           Inl x \<Rightarrow> Some (Inl x)
         | Inr c \<Rightarrow>
             Option.bind (recursive_int c (s - 2) (- w) g n) (\<lambda>r.
               (case and_then r (\<lambda>h. and_then (augment_g b g n) (\<lambda>e.
                       and_then (augment_c b s n c) (\<lambda>c'. Inr (h, e, c')))) of
                  Inl x \<Rightarrow> Some (Inl x)
                | Inr (h, e, c') \<Rightarrow>
                    Option.bind (recursive_int c' (s - 2) w e n) (\<lambda>r'.
                      Some (and_then r' (\<lambda>h'. Inr (h + h'))))))))"

declare recursive_int.simps [code]

text \<open>
  \<^verbatim>\<open>hafnian_int\<close>.  \<^verbatim>\<open>int n = std::sqrt(static_cast<double>(mat.size()))/2\<close> halves the
  square root as a \<^verbatim>\<open>double\<close> and truncates; that is the integer square root, halved
  (\<open>isqrt_floor\<close>, \<open>half_sqrt_floor\<close> below).
\<close>

fun isqrt_from :: "nat \<Rightarrow> nat \<Rightarrow> nat" where
  "isqrt_from k 0 = 0"
| "isqrt_from k (Suc r) = (if Suc r * Suc r \<le> k then Suc r else isqrt_from k r)"

definition isqrt :: "nat \<Rightarrow> nat" where
  "isqrt k = isqrt_from k k"

definition seed_cell :: "llint list \<Rightarrow> nat \<Rightarrow> nat \<Rightarrow> nat \<Rightarrow>
    llint list list \<Rightarrow> error + llint list list" where
  "seed_cell mat n j k z =
     and_then (vget mat (2 * j * n + k)) (vset2 z (j * (j - 1) div 2 + k) 0)"

definition seed :: "llint list \<Rightarrow> nat \<Rightarrow> error + llint list list" where
  "seed mat n =
     for_each (\<lambda>j. for_each (seed_cell mat n j) [0 ..< j]) [1 ..< 2 * n]
       (replicate (n * (2 * n - 1)) (replicate (n + 1) 0))"

definition hafnian_int :: "llint list \<Rightarrow> (error + llint) option" where
  "hafnian_int mat =
     (let n = isqrt (length mat) div 2;
          g = (replicate (n + 1) 0)[0 := 1]
      in case seed mat n of
           Inl x \<Rightarrow> Some (Inl x)
         | Inr z \<Rightarrow> recursive_int z (2 * int n) 1 g n)"

text \<open>
  Vocabulary for stating what the loops compute: the index pairs \<open>(j, k)\<close> in the order
  in which the double loop \<^verbatim>\<open>for j in 1..s-3, for k in 0..j-1\<close> visits them, the rows
  of \<^verbatim>\<open>b\<close> that the reduce step copies for a list of pairs, and whether those reads stay
  inside \<^verbatim>\<open>b\<close>.
\<close>

definition pairs :: "int \<Rightarrow> (nat \<times> nat) list" where
  "pairs s = concat (map (\<lambda>j. map (Pair j) [0 ..< j]) (js s))"

definition rows_from :: "llint list list \<Rightarrow> nat \<Rightarrow> (nat \<times> nat) list \<Rightarrow> llint list list" where
  "rows_from b n ps = map (\<lambda>(j, k). take (n + 1) (b ! ((j + 1) * (j + 2) div 2 + k + 2))) ps"

definition rows_ok :: "llint list list \<Rightarrow> nat \<Rightarrow> (nat \<times> nat) list \<Rightarrow> bool" where
  "rows_ok b n ps = list_all (\<lambda>(j, k). (j + 1) * (j + 2) div 2 + k + 2 < length b \<and>
       n < length (b ! ((j + 1) * (j + 2) div 2 + k + 2))) ps"

text \<open>
  The index pairs as the specification words them for the reduce step,
  \<open>1 \<le> k < j < s - 2\<close>; kept apart from \<open>pairs\<close>, which is what the loop visits.
\<close>

definition pairs_claimed :: "int \<Rightarrow> (nat \<times> nat) list" where
  "pairs_claimed s = concat (map (\<lambda>j. map (Pair j) [1 ..< j]) (js s))"

text \<open>
  The pairs \<open>(j, k)\<close> with \<open>0 \<le> k < j < M\<close> in the order of the seeding loop of
  \<^verbatim>\<open>hafnian_int\<close>; the pair \<open>(j, k)\<close> is packed at position \<open>j(j-1)/2 + k\<close>.
\<close>

definition lower_pairs :: "nat \<Rightarrow> (nat \<times> nat) list" where
  "lower_pairs M = concat (map (\<lambda>j. map (Pair j) [0 ..< j]) [1 ..< M])"

text \<open>
  The seeding as the specification words it: constant terms only for the pairs with
  \<open>1 \<le> j < n\<close>, \<open>0 \<le> k < j\<close>, every other coefficient zero.
\<close>

definition seed_claimed :: "llint list \<Rightarrow> nat \<Rightarrow> llint list list" where
  "seed_claimed mat n =
     map (\<lambda>i. case find (\<lambda>(j, k). j * (j - 1) div 2 + k = i) (lower_pairs n) of
                 Some (j, k) \<Rightarrow> mat ! (2 * j * n + k) # replicate n 0
               | None \<Rightarrow> replicate (n + 1) 0)
       [0 ..< n * (2 * n - 1)]"

section \<open>Power traces (\<^verbatim>\<open>powtrace\<close>)\<close>

text \<open>
  The floating-point paths are modelled in exact arithmetic: \<^verbatim>\<open>double\<close> is \<open>real\<close>,
  \<^verbatim>\<open>std::complex<double>\<close> is \<open>complex\<close>, and the worker templates over \<^verbatim>\<open>T\<close> are
  polymorphic over a field of characteristic 0.  Rounding is outside the model.

  The eigenvalue solver (Eigen's \<^verbatim>\<open>ComplexEigenSolver\<close>) is a library; it is a parameter
  \<open>eigenvalues\<close> taking the matrix buffer and its order.  \<^verbatim>\<open>vals\<close> is replaced by the
  solver's vector only when \<^verbatim>\<open>n != 0\<close>.
\<close>

text \<open>Lines 51--54, \<^verbatim>\<open>pvals[j] = vals[j]\<close>.\<close>

definition init_pvals :: "complex list \<Rightarrow> nat \<Rightarrow> complex list" where
  "init_pvals vals n = fold (\<lambda>j p. p[j := vals ! j]) [0 ..< n] (replicate n 0)"

text \<open>
  Lines 55--67, one round of the loop over \<^verbatim>\<open>i\<close> on the state \<^verbatim>\<open>(traces, pvals)\<close>;
  \<open>store\<close> is the identity in the complex overload and \<^verbatim>\<open>sum.real()\<close> in the real one.
\<close>

definition powtrace_round :: "(complex \<Rightarrow> 'a) \<Rightarrow> complex list \<Rightarrow> nat \<Rightarrow> nat \<Rightarrow>
    'a list \<times> complex list \<Rightarrow> 'a list \<times> complex list" where
  "powtrace_round store vals n i = (\<lambda>(traces, pvals).
     (let sum_x = fold (\<lambda>j s. s + pvals ! j) [0 ..< n] 0
      in (traces[i := store sum_x],
          fold (\<lambda>j p. p[j := p ! j * vals ! j]) [0 ..< n] pvals)))"

definition powtrace :: "(complex list \<Rightarrow> nat \<Rightarrow> complex list) \<Rightarrow>
    complex list \<Rightarrow> nat \<Rightarrow> nat \<Rightarrow> complex list" where
  "powtrace eigenvalues z n l =
     (let vals = (if n \<noteq> 0 then eigenvalues z n else replicate n 0)
      in fst (fold (powtrace_round (\<lambda>c. c) vals n) [0 ..< l]
                (replicate l 0, init_pvals vals n)))"

definition powtrace_real :: "(real list \<Rightarrow> nat \<Rightarrow> complex list) \<Rightarrow>
    real list \<Rightarrow> nat \<Rightarrow> nat \<Rightarrow> real list" where
  "powtrace_real eigenvalues z n l =
     (let vals = (if n \<noteq> 0 then eigenvalues z n else replicate n 0)
      in fst (fold (powtrace_round Re vals n) [0 ..< l]
                (replicate l 0, init_pvals vals n)))"

section \<open>The subset worker (\<^verbatim>\<open>dec2bin\<close>, \<^verbatim>\<open>find2\<close>, \<^verbatim>\<open>do_chunk\<close>)\<close>

text \<open>
  \<^verbatim>\<open>unsigned long long\<close> is a 64-bit word.  \<^verbatim>\<open>Byte\<close> values are naturals reduced modulo
  256 where the code stores them.  All other counters are \<^verbatim>\<open>int\<close>s that stay small.

  The worker computes every index from \<^verbatim>\<open>n\<close> and \<^verbatim>\<open>x\<close>.  For \<open>n div 2 \<le> 64\<close> and a matrix
  of at least \<open>n * n\<close> elements they all stay in range (the position list has \<^verbatim>\<open>sum\<close>
  entries below \<open>2 * (n div 2)\<close>, lemma \<open>pos_below\<close>; \<^verbatim>\<open>traces\<close> and the rows of
  \<^verbatim>\<open>comb\<close> have \<open>n div 2\<close> and \<open>n div 2 + 1\<close> entries), so reads are written with \<open>!\<close>
  and the statements about the worker carry that bound.  Beyond it the C++ code is
  undefined (a shift by 64 or more, characters of \<^verbatim>\<open>dst\<close> never written).

  The iterations of the \<^verbatim>\<open>omp parallel for\<close> loops are independent of each other, and in
  exact arithmetic the order of the additions to \<^verbatim>\<open>res\<close> does not matter: the loop over
  \<^verbatim>\<open>x\<close> is a fold in increasing order.
\<close>

type_synonym ull = "64 word"

text \<open>The value of an \<^verbatim>\<open>int\<close> stored in a (signed) \<^verbatim>\<open>char\<close>.\<close>

definition schar :: "int \<Rightarrow> int" where
  "schar v = (v + 128) mod 256 - 128"

text \<open>
  \<^verbatim>\<open>dec2bin\<close>: the counter \<^verbatim>\<open>char i\<close> starts at \<^verbatim>\<open>len - 1\<close> and runs down to 0; the
  result is the list of the characters written, \<^verbatim>\<open>dst[0]\<close> first, so the most
  significant of the \<^verbatim>\<open>len\<close> bits comes first.  (For \<^verbatim>\<open>len > 128\<close> the counter starts
  negative and nothing is written.)
\<close>

definition dec2bin :: "ull \<Rightarrow> nat \<Rightarrow> nat list" where
  "dec2bin x len =
     map (\<lambda>i. unat (and (drop_bit i x) 1)) (rev [0 ..< nat (schar (int len - 1) + 1)])"

text \<open>
  \<^verbatim>\<open>find2\<close>: the state is \<^verbatim>\<open>(pos, j)\<close>, with \<^verbatim>\<open>pos\<close> the cells written so far (cells
  \<^verbatim>\<open>2j\<close> and \<^verbatim>\<open>2j+1\<close> are written when \<^verbatim>\<open>j\<close> ones have been seen).  The result is the
  returned \<^verbatim>\<open>Byte\<close> together with \<^verbatim>\<open>pos\<close>.
\<close>

definition find2 :: "nat list \<Rightarrow> nat \<Rightarrow> nat \<times> nat list" where
  "find2 dst len =
     (let (pos, j) = fold (\<lambda>i (pos, j).
                        if 1 = dst ! i
                        then (pos @ [(2 * i) mod 256, (2 * i + 1) mod 256], (j + 1) mod 256)
                        else (pos, j)) [0 ..< len] ([], 0)
      in ((2 * j) mod 256, pos))"

text \<open>Lines 156--162: the reduced matrix \<^verbatim>\<open>B\<close>, row-major of side \<^verbatim>\<open>sum\<close>.\<close>

definition reduced_matrix :: "'a::zero list \<Rightarrow> nat \<Rightarrow> nat list \<Rightarrow> nat \<Rightarrow> 'a list" where
  "reduced_matrix mat n pos sum_x =
     fold (\<lambda>i. fold (\<lambda>j B. B[i * sum_x + j := mat ! (pos ! i * n + xor (pos ! j) 1)]) [0 ..< sum_x])
       [0 ..< sum_x] (replicate (sum_x * sum_x) 0)"

text \<open>
  The generating-function buffer: the two rows \<^verbatim>\<open>comb\<close>, the flag \<^verbatim>\<open>cnt\<close> and the
  index \<^verbatim>\<open>cntindex\<close> (lines 166--170).
\<close>

record 'a series_state =
  comb :: "'a list list"
  cnt :: int
  cntindex :: nat

definition series_init :: "nat \<Rightarrow> 'a::field_char_0 series_state" where
  "series_init m =
     \<lparr>comb = [(replicate (m + 1) 0)[0 := 1], replicate (m + 1) 0], cnt = 1, cntindex = 0\<rparr>"

text \<open>
  Lines 174--186 (and, with the same text, 270--283 of the loop worker): flip \<^verbatim>\<open>cnt\<close>,
  copy the row \<^verbatim>\<open>comb[cntindex]\<close> to the other row, then add the shifted multiples.
\<close>

definition series_step :: "nat \<Rightarrow> nat \<Rightarrow> 'a::field_char_0 \<Rightarrow> 'a series_state \<Rightarrow> 'a series_state" where
  "series_step n i factor st =
     (let cnt' = - cnt st;
          ci = nat ((1 + cnt') div 2);
          c1 = fold (\<lambda>j c. c[1 - ci := (c ! (1 - ci))[j := c ! ci ! j]])
                 [0 ..< n div 2 + 1] (comb st);
          (c2, pf) =
            fold (\<lambda>j (c, powfactor).
                    let pf = powfactor * factor / of_nat j
                    in (fold (\<lambda>k c. c[1 - ci := (c ! (1 - ci))[k - 1 :=
                                 c ! (1 - ci) ! (k - 1) + c ! ci ! (k - i * j - 1) * pf]])
                          [i * j + 1 ..< n div 2 + 2] c,
                        pf))
              [1 ..< n div (2 * i) + 1] (c1, 1)
      in \<lparr>comb = c2, cnt = cnt', cntindex = ci\<rparr>)"

text \<open>Lines 172--187: the loop over the trace index \<^verbatim>\<open>i\<close>, run for the indices \<open>is\<close>.\<close>

definition series_loop :: "'a::field_char_0 list \<Rightarrow> nat \<Rightarrow> nat list \<Rightarrow> 'a series_state \<Rightarrow> 'a series_state" where
  "series_loop traces n is st =
     fold (\<lambda>i. series_step n i (traces ! (i - 1) / (2 * of_nat i))) is st"

text \<open>
  The body of the loop over \<^verbatim>\<open>x\<close> in \<^verbatim>\<open>do_chunk\<close>, in the order of the source: the
  position list, the traces of the reduced matrix, the buffer after the loop over \<^verbatim>\<open>i\<close>,
  the coefficient read from it, and the signed summand.  \<open>pt\<close> is the overload of
  \<^verbatim>\<open>powtrace\<close> that \<^verbatim>\<open>T\<close> selects.
\<close>

definition subset_traces :: "('a list \<Rightarrow> nat \<Rightarrow> nat \<Rightarrow> 'a list) \<Rightarrow> 'a::field_char_0 list \<Rightarrow>
    nat \<Rightarrow> ull \<Rightarrow> 'a list" where
  "subset_traces pt mat n x =
     (let m = (n div 2) mod 256;
          (sum_x, pos) = find2 (dec2bin x m) m
      in pt (reduced_matrix mat n pos sum_x) sum_x m)"

definition final_state :: "('a list \<Rightarrow> nat \<Rightarrow> nat \<Rightarrow> 'a list) \<Rightarrow> 'a::field_char_0 list \<Rightarrow>
    nat \<Rightarrow> ull \<Rightarrow> 'a series_state" where
  "final_state pt mat n x =
     series_loop (subset_traces pt mat n x) n [1 ..< n div 2 + 1]
       (series_init ((n div 2) mod 256))"

definition extracted :: "('a list \<Rightarrow> nat \<Rightarrow> nat \<Rightarrow> 'a list) \<Rightarrow> 'a::field_char_0 list \<Rightarrow>
    nat \<Rightarrow> ull \<Rightarrow> 'a" where
  "extracted pt mat n x =
     (let st = final_state pt mat n x in comb st ! (1 - cntindex st) ! (n div 2))"

definition summand :: "('a list \<Rightarrow> nat \<Rightarrow> nat \<Rightarrow> 'a list) \<Rightarrow> 'a::field_char_0 list \<Rightarrow>
    nat \<Rightarrow> ull \<Rightarrow> 'a" where
  "summand pt mat n x =
     (let m = (n div 2) mod 256;
          sum_x = fst (find2 (dec2bin x m) m)
      in if (sum_x div 2) mod 2 = (n div 2) mod 2
         then extracted pt mat n x
         else - extracted pt mat n x)"

text \<open>
  \<^verbatim>\<open>do_chunk\<close>: \<^verbatim>\<open>for (x = X; x < X + chunksize; x++) res += summand\<close>, the bound
  \<^verbatim>\<open>X + chunksize\<close> being computed in 64 bits.
\<close>

definition do_chunk :: "('a list \<Rightarrow> nat \<Rightarrow> nat \<Rightarrow> 'a list) \<Rightarrow> 'a::field_char_0 list \<Rightarrow>
    nat \<Rightarrow> ull \<Rightarrow> ull \<Rightarrow> 'a" where
  "do_chunk pt mat n X chunksize =
     fold (\<lambda>x res. res + summand pt mat n (of_nat x)) [unat X ..< unat (X + chunksize)] 0"

section \<open>The loop worker (\<^verbatim>\<open>do_chunk_loops\<close>)\<close>

text \<open>Lines 222--232: \<^verbatim>\<open>B\<close>, \<^verbatim>\<open>B_powtrace\<close>, \<^verbatim>\<open>C1\<close> and \<^verbatim>\<open>D1\<close>.\<close>

definition gather :: "'a::zero list \<Rightarrow> 'a list \<Rightarrow> 'a list \<Rightarrow> nat \<Rightarrow> nat list \<Rightarrow> nat \<Rightarrow>
    'a list \<times> 'a list \<times> 'a list \<times> 'a list" where
  "gather mat C D n pos sum_x =
     fold (\<lambda>i (B, Bp, C1, D1).
             let (B', Bp') =
                   fold (\<lambda>j (B, Bp).
                           (B[i * sum_x + j := mat ! (pos ! i * n + xor (pos ! j) 1)],
                            Bp[i * sum_x + j := mat ! (pos ! i * n + xor (pos ! j) 1)]))
                     [0 ..< sum_x] (B, Bp)
             in (B', Bp', C1[i := C ! (pos ! i)], D1[i := D ! (pos ! i)]))
       [0 ..< sum_x]
       (replicate (sum_x * sum_x) 0, replicate (sum_x * sum_x) 0, replicate sum_x 0, replicate sum_x 0)"

text \<open>
  Lines 243--267: the factor of round \<^verbatim>\<open>i\<close> with the diagonal term, and the new \<^verbatim>\<open>C1\<close>.
\<close>

definition loop_factor :: "'a::field_char_0 list \<Rightarrow> 'a list \<Rightarrow> 'a list \<Rightarrow> nat \<Rightarrow> nat \<Rightarrow> 'a" where
  "loop_factor traces C1 D1 sum_x i =
     (let factor = traces ! (i - 1) / (2 * of_nat i);
          tmpn = fold (\<lambda>t s. s + C1 ! t * D1 ! t) [0 ..< sum_x] 0
      in factor + (1 / 2) * tmpn)"

definition advance_C1 :: "'a::field_char_0 list \<Rightarrow> 'a list \<Rightarrow> nat \<Rightarrow> 'a list" where
  "advance_C1 B C1 sum_x =
     (let tmp_c1 = fold (\<lambda>t tc. tc[t := fold (\<lambda>j tmp. tmp + C1 ! j * B ! (j * sum_x + t)) [0 ..< sum_x] 0])
                     [0 ..< sum_x] (replicate sum_x 0)
      in fold (\<lambda>t c. c[t := tmp_c1 ! t]) [0 ..< sum_x] C1)"

definition loops_step :: "'a::field_char_0 list \<Rightarrow> 'a list \<Rightarrow> 'a list \<Rightarrow> nat \<Rightarrow> nat \<Rightarrow> nat \<Rightarrow>
    'a series_state \<times> 'a list \<Rightarrow> 'a series_state \<times> 'a list" where
  "loops_step traces B D1 sum_x n i = (\<lambda>(st, C1).
     (series_step n i (loop_factor traces C1 D1 sum_x i) st, advance_C1 B C1 sum_x))"

definition final_state_loops :: "('a list \<Rightarrow> nat \<Rightarrow> nat \<Rightarrow> 'a list) \<Rightarrow> 'a::field_char_0 list \<Rightarrow>
    'a list \<Rightarrow> 'a list \<Rightarrow> nat \<Rightarrow> ull \<Rightarrow> 'a series_state" where
  "final_state_loops pt mat C D n x =
     (let m = (n div 2) mod 256;
          (sum_x, pos) = find2 (dec2bin x m) m;
          (B, B_powtrace, C1, D1) = gather mat C D n pos sum_x;
          traces = pt B_powtrace sum_x m
      in fst (fold (loops_step traces B D1 sum_x n) [1 ..< n div 2 + 1] (series_init m, C1)))"

definition summand_loops :: "('a list \<Rightarrow> nat \<Rightarrow> nat \<Rightarrow> 'a list) \<Rightarrow> 'a::field_char_0 list \<Rightarrow>
    'a list \<Rightarrow> 'a list \<Rightarrow> nat \<Rightarrow> ull \<Rightarrow> 'a" where
  "summand_loops pt mat C D n x =
     (let m = (n div 2) mod 256;
          sum_x = fst (find2 (dec2bin x m) m);
          st = final_state_loops pt mat C D n x
      in if (sum_x div 2) mod 2 = (n div 2) mod 2
         then comb st ! (1 - cntindex st) ! (n div 2)
         else - (comb st ! (1 - cntindex st) ! (n div 2)))"

text \<open>
  \<^verbatim>\<open>do_chunk_loops\<close>: \<^verbatim>\<open>for (x = X * chunksize; x < (X + 1) * chunksize; x++)\<close>.
\<close>

definition do_chunk_loops :: "('a list \<Rightarrow> nat \<Rightarrow> nat \<Rightarrow> 'a list) \<Rightarrow> 'a::field_char_0 list \<Rightarrow>
    'a list \<Rightarrow> 'a list \<Rightarrow> nat \<Rightarrow> ull \<Rightarrow> ull \<Rightarrow> 'a" where
  "do_chunk_loops pt mat C D n X chunksize =
     fold (\<lambda>x res. res + summand_loops pt mat C D n (of_nat x))
       [unat (X * chunksize) ..< unat ((X + 1) * chunksize)] 0"

section \<open>The drivers (\<^verbatim>\<open>hafnian\<close>, \<^verbatim>\<open>loop_hafnian\<close>)\<close>

text \<open>
  \<^verbatim>\<open>int n = std::sqrt(static_cast<double>(mat.size()))\<close> is the integer square root;
  \<^verbatim>\<open>assert(n % 2 == 0)\<close> aborts on an odd \<^verbatim>\<open>n\<close>.  \<^verbatim>\<open>pow1\<close> is \<open>2 ^ m\<close> as a 64-bit
  value (the conversion from \<^verbatim>\<open>double\<close> is exact for \<open>m \<le> 63\<close>); \<^verbatim>\<open>workers\<close> is computed
  and not used.
\<close>

definition hafnian :: "('a list \<Rightarrow> nat \<Rightarrow> nat \<Rightarrow> 'a list) \<Rightarrow> 'a::field_char_0 list \<Rightarrow> error + 'a" where
  "hafnian pt mat =
     (let n = isqrt (length mat)
      in if n mod 2 \<noteq> 0 then Inl EvenDimensionRequired
         else
           let m = (n div 2) mod 256;
               mm = m div 2;
               pow1 = (2 :: ull) ^ m;
               workers = min ((2 :: ull) ^ mm) pow1;
               chunksize = pow1;
               rank = 0
           in Inr (do_chunk pt mat n rank chunksize))"

text \<open>Lines 403--410: \<^verbatim>\<open>D\<close> is the diagonal, \<^verbatim>\<open>C\<close> is \<^verbatim>\<open>D\<close> with neighbours swapped.\<close>

definition diagonal :: "'a::zero list \<Rightarrow> nat \<Rightarrow> 'a list" where
  "diagonal mat n = fold (\<lambda>i D. D[i := mat ! (i * n + i)]) [0 ..< n] (replicate n 0)"

definition swapped :: "'a::zero list \<Rightarrow> nat \<Rightarrow> 'a list" where
  "swapped D n =
     fold (\<lambda>i C. (C[i := D ! (i + 1)])[i + 1 := D ! i])
       (map (\<lambda>t. 2 * t) [0 ..< (n + 1) div 2]) (replicate n 0)"

definition loop_hafnian :: "('a list \<Rightarrow> nat \<Rightarrow> nat \<Rightarrow> 'a list) \<Rightarrow> 'a::field_char_0 list \<Rightarrow> error + 'a" where
  "loop_hafnian pt mat =
     (let n = isqrt (length mat)
      in if n mod 2 \<noteq> 0 then Inl EvenDimensionRequired
         else
           let m = (n div 2) mod 256;
               mm = m div 2;
               pow1 = (2 :: ull) ^ m;
               workers = min ((2 :: ull) ^ mm) pow1;
               D = diagonal mat n;
               C = swapped D n;
               chunksize = pow1;
               rank = 0
           in Inr (do_chunk_loops pt mat C D n rank chunksize))"

text \<open>
  A solver for concrete instances: on a triangular matrix the eigenvalues are the
  diagonal entries.  It is used only where a statement is evaluated at a matrix whose
  reduced matrices are all diagonal.
\<close>

definition diagonal_eigenvalues :: "real list \<Rightarrow> nat \<Rightarrow> complex list" where
  "diagonal_eigenvalues z n = map (\<lambda>i. complex_of_real (z ! (i * n + i))) [0 ..< n]"

section \<open>Vocabulary for the statements about the workers\<close>

text \<open>
  \<open>|S(x)|\<close>: the number of set bits of \<open>x\<close> among its low \<open>m\<close> bits (all its set bits
  when \<open>x < 2 ^ m\<close>, lemma \<open>subset_size_popcount\<close>).
\<close>

definition subset_size :: "ull \<Rightarrow> nat \<Rightarrow> nat" where
  "subset_size x m = length (filter (bit x) [0 ..< m])"

text \<open>
  The positions \<open>i < m\<close> at which the character written by \<^verbatim>\<open>dec2bin\<close> is 1: position
  \<open>i\<close> holds bit \<open>m - 1 - i\<close> of \<open>x\<close>.
\<close>

definition msb_positions :: "ull \<Rightarrow> nat \<Rightarrow> nat list" where
  "msb_positions x m = filter (\<lambda>i. bit x (m - 1 - i)) [0 ..< m]"

text \<open>
  The truncated power series of the specification, as coefficient sequences:
  \<open>exp_coeff a i k\<close> is the coefficient of \<open>z ^ k\<close> in
  \<open>exp (a z ^ i) = \<Sum>\<^sub>j (a z ^ i) ^ j / j!\<close>, \<open>series_mult\<close> is the Cauchy product, and
  \<open>gf_prod \<tau> i\<close> is the product over \<open>i' \<le> i\<close> of \<open>exp (\<tau>[i'-1] z ^ i' / (2 i'))\<close>.
\<close>

definition exp_coeff :: "'a::field_char_0 \<Rightarrow> nat \<Rightarrow> nat \<Rightarrow> 'a" where
  "exp_coeff a i k = (if i dvd k then a ^ (k div i) / fact (k div i) else 0)"

definition series_mult :: "(nat \<Rightarrow> 'a) \<Rightarrow> (nat \<Rightarrow> 'a) \<Rightarrow> nat \<Rightarrow> 'a::field_char_0" where
  "series_mult p q k = (\<Sum>t\<le>k. p t * q (k - t))"

fun gf_prod :: "'a::field_char_0 list \<Rightarrow> nat \<Rightarrow> nat \<Rightarrow> 'a" where
  "gf_prod tau 0 = (\<lambda>k. if k = 0 then 1 else 0)"
| "gf_prod tau (Suc i) =
     series_mult (gf_prod tau i) (exp_coeff (tau ! i / (2 * of_nat (Suc i))) (Suc i))"
section \<open>Facts about the loops of the integer engine\<close>

lemma and_then_Inl [simp]: "and_then (Inl e) f = Inl e"
  by (simp add: and_then_def)

lemma and_then_Inr [simp]: "and_then (Inr v) f = f v"
  by (simp add: and_then_def)

lemma vget_in [simp]: "i < length xs \<Longrightarrow> vget xs i = Inr (xs ! i)"
  by (simp add: vget_def)

lemma vget_out [simp]: "\<not> i < length xs \<Longrightarrow> vget xs i = Inl OutOfRange"
  by (simp add: vget_def)

lemma vset_in [simp]: "i < length xs \<Longrightarrow> vset xs i v = Inr (xs[i := v])"
  by (simp add: vset_def)

lemma vset_out [simp]: "\<not> i < length xs \<Longrightarrow> vset xs i v = Inl OutOfRange"
  by (simp add: vset_def)

lemma vget2_eq:
  "vget2 xss i j = (if i < length xss \<and> j < length (xss ! i) then Inr (xss ! i ! j) else Inl OutOfRange)"
  by (cases "i < length xss") (simp_all add: vget2_def)

lemma vset2_eq:
  "vset2 xss i j v = (if i < length xss \<and> j < length (xss ! i)
      then Inr (xss[i := (xss ! i)[j := v]]) else Inl OutOfRange)"
  by (cases "i < length xss"; cases "j < length (xss ! i)") (simp_all add: vset2_def)

lemma for_each_append:
  "for_each body (xs @ ys) s = and_then (for_each body xs s) (for_each body ys)"
  by (induction xs arbitrary: s) (auto simp: and_then_def split: sum.splits)

lemma for_each_Pair:
  "for_each (\<lambda>(j, k). body j k) (map (Pair j) ks) s = for_each (body j) ks s"
  by (induction ks arbitrary: s) (auto simp: and_then_def split: sum.splits)

lemma for_each_nested:
  "for_each (\<lambda>j. for_each (body j) (ks j)) xs s =
   for_each (\<lambda>(j, k). body j k) (concat (map (\<lambda>j. map (Pair j) (ks j)) xs)) s"
  by (induction xs arbitrary: s) (auto simp: for_each_append for_each_Pair and_then_def split: sum.splits)

lemma for_each_inv:
  assumes "P s" and "\<And>i s. i \<in> set xs \<Longrightarrow> P s \<Longrightarrow> \<exists>s'. body i s = Inr s' \<and> P s'"
  shows "\<exists>s'. for_each body xs s = Inr s' \<and> P s'"
  using assms
proof (induction xs arbitrary: s)
  case Nil
  then show ?case by simp
next
  case (Cons x xs)
  from Cons.prems obtain s1 where s1: "body x s = Inr s1" "P s1" by fastforce
  have "\<exists>s'. for_each body xs s1 = Inr s' \<and> P s'"
    by (rule Cons.IH [OF s1(2)]) (use Cons.prems(2) in auto)
  with s1 show ?case by simp
qed

lemma take_drop_update:
  assumes "m < length xs" "m < length ys"
  shows "(take m xs @ drop m ys)[m := xs ! m] = take (Suc m) xs @ drop (Suc m) ys"
proof -
  have "(take m xs @ drop m ys)[m := xs ! m] = take m xs @ (drop m ys)[0 := xs ! m]"
    using assms by (simp add: list_update_append)
  also have "(drop m ys)[0 := xs ! m] = xs ! m # drop (Suc m) ys"
    using assms by (cases "drop m ys") (auto simp: drop_Suc dest: arg_cong [where f = tl] simp: tl_drop)
  finally show ?thesis using assms by (simp add: take_Suc_conv_app_nth)
qed

lemma copy_row:
  assumes "i < length c" "m \<le> length (c ! i)"
  shows "for_each (\<lambda>u c. and_then (vget2 b idx u) (vset2 c i u)) [0 ..< m] c =
     (if m = 0 \<or> (idx < length b \<and> m \<le> length (b ! idx))
      then Inr (c[i := take m (b ! idx) @ drop m (c ! i)]) else Inl OutOfRange)"
proof -
  define F where "F = (\<lambda>u c. and_then (vget2 b idx u) (vset2 c i u))"
  have "for_each F [0 ..< m] c =
     (if m = 0 \<or> (idx < length b \<and> m \<le> length (b ! idx))
      then Inr (c[i := take m (b ! idx) @ drop m (c ! i)]) else Inl OutOfRange)"
    using assms
  proof (induction m)
    case 0
    then show ?case by simp
  next
    case (Suc m)
    have IH: "for_each F [0 ..< m] c =
       (if m = 0 \<or> (idx < length b \<and> m \<le> length (b ! idx))
        then Inr (c[i := take m (b ! idx) @ drop m (c ! i)]) else Inl OutOfRange)"
      using Suc by simp
    have step: "for_each F [0 ..< Suc m] c = and_then (for_each F [0 ..< m] c) (F m)"
      by (simp add: for_each_append and_then_def split: sum.splits)
    show ?case
    proof (cases "idx < length b \<and> Suc m \<le> length (b ! idx)")
      case True
      then show ?thesis
        using Suc.prems unfolding step IH
        by (simp add: F_def vget2_eq vset2_eq take_drop_update)
    next
      case False
      then show ?thesis
        using Suc.prems unfolding step IH
        by (auto simp add: F_def vget2_eq vset2_eq simp flip: length_greater_0_conv)
    qed
  qed
  then show ?thesis by (simp add: F_def)
qed

lemma reduce_row_eq:
  assumes "i < length c" "length (c ! i) = n + 1"
  shows "reduce_row b n j k (c, i) =
     (if (j + 1) * (j + 2) div 2 + k + 2 < length b \<and> n < length (b ! ((j + 1) * (j + 2) div 2 + k + 2))
      then Inr (c[i := take (n + 1) (b ! ((j + 1) * (j + 2) div 2 + k + 2))], i + 1)
      else Inl OutOfRange)"
  using assms by (simp add: reduce_row_def copy_row Suc_le_eq del: upt_Suc)

lemma reduce_pairs:
  assumes "i + length ps \<le> length c" "\<forall>r\<in>set c. length r = n + 1"
  shows "for_each (\<lambda>(j, k). reduce_row b n j k) ps (c, i) =
     (if rows_ok b n ps
      then Inr (take i c @ rows_from b n ps @ drop (i + length ps) c, i + length ps)
      else Inl OutOfRange)"
  using assms
proof (induction ps arbitrary: c i)
  case Nil
  then show ?case by (simp add: rows_ok_def rows_from_def)
next
  case (Cons p ps)
  obtain j k where p: "p = (j, k)" by (cases p)
  define idx where "idx = (j + 1) * (j + 2) div 2 + k + 2"
  define r where "r = take (n + 1) (b ! idx)"
  have i: "i < length c" using Cons.prems by simp
  then have len: "length (c ! i) = n + 1" using Cons.prems by simp
  have step: "reduce_row b n j k (c, i) =
      (if idx < length b \<and> n < length (b ! idx) then Inr (c[i := r], Suc i) else Inl OutOfRange)"
    using reduce_row_eq [OF i len, of b j k] by (simp add: idx_def r_def)
  have ok: "rows_ok b n ((j, k) # ps) \<longleftrightarrow> (idx < length b \<and> n < length (b ! idx)) \<and> rows_ok b n ps"
    by (simp add: rows_ok_def idx_def)
  have rf: "rows_from b n ((j, k) # ps) = r # rows_from b n ps"
    by (simp add: rows_from_def idx_def r_def)
  show ?case
  proof (cases "idx < length b \<and> n < length (b ! idx)")
    case False
    then show ?thesis
      by (auto simp add: p step ok)
  next
    case True
    then have "length r = n + 1" by (simp add: r_def)
    then have rows: "\<forall>x\<in>set (c[i := r]). length x = n + 1"
      using Cons.prems(2) by (auto dest!: subsetD [OF set_update_subset_insert])
    have IH: "for_each (\<lambda>(j, k). reduce_row b n j k) ps (c[i := r], Suc i) =
       (if rows_ok b n ps
        then Inr (take (Suc i) (c[i := r]) @ rows_from b n ps @ drop (Suc i + length ps) (c[i := r]), Suc i + length ps)
        else Inl OutOfRange)"
      by (rule Cons.IH) (use Cons.prems rows in auto)
    have tk: "take (Suc i) (c[i := r]) = take i c @ [r]"
      using i by (simp add: take_Suc_conv_app_nth)
    show ?thesis
      using True by (simp add: p step IH tk ok rf)
  qed
qed

lemma tri_step: "(M::nat) * (M - 1) div 2 + M = Suc M * (Suc M - 1) div 2"
proof (cases M)
  case 0
  then show ?thesis by simp
next
  case (Suc k)
  have "Suc M * (Suc M - 1) = M * (M - 1) + M * 2"
    using Suc by (simp add: algebra_simps)
  then show ?thesis by simp
qed

lemma length_pairs_upto:
  "length (concat (map (\<lambda>j. map (Pair j) [0 ..< j]) [Suc 0 ..< M])) = M * (M - 1) div 2"
proof (induction M)
  case 0
  then show ?case by simp
next
  case (Suc M)
  show ?case
  proof (cases "M = 0")
    case True
    then show ?thesis by simp
  next
    case False
    then have "[Suc 0 ..< Suc M] = [Suc 0 ..< M] @ [M]" by simp
    then show ?thesis using Suc tri_step [of M] by simp
  qed
qed

lemma length_pairs:
  assumes "2 \<le> s"
  shows "length (pairs s) = nat ((s - 2) * (s - 3) div 2)"
proof -
  define M where "M = nat (s - 2)"
  have s: "s = int M + 2" using assms by (simp add: M_def)
  have "(s - 2) * (s - 3) = int (M * (M - 1))"
    unfolding s by (cases M) (simp_all add: algebra_simps)
  then have "nat ((s - 2) * (s - 3) div 2) = M * (M - 1) div 2"
    by (simp add: zdiv_int [symmetric] del: of_nat_mult)
  then show ?thesis
    by (simp add: pairs_def js_def length_pairs_upto M_def)
qed

lemma reduce_eq:
  assumes "2 \<le> s"
  shows "reduce b s n = (if rows_ok b n (pairs s) then Inr (rows_from b n (pairs s)) else Inl OutOfRange)"
proof -
  let ?c = "replicate (nat ((s - 2) * (s - 3) div 2)) (replicate (n + 1) (0::llint))"
  have "for_each (\<lambda>j. for_each (reduce_row b n j) [0 ..< j]) (js s) (?c, 0) =
        for_each (\<lambda>(j, k). reduce_row b n j k) (pairs s) (?c, 0)"
    by (simp add: for_each_nested pairs_def)
  also have "\<dots> = (if rows_ok b n (pairs s)
      then Inr (take 0 ?c @ rows_from b n (pairs s) @ drop (0 + length (pairs s)) ?c, 0 + length (pairs s))
      else Inl OutOfRange)"
    by (rule reduce_pairs) (simp_all add: length_pairs [OF assms])
  finally show ?thesis
    by (simp add: reduce_def length_pairs [OF assms])
qed

section \<open>The reduce step and the base case\<close>

lemma set_pairs: "set (pairs s) = {(j, k). k < j \<and> int j < s - 2}"
proof -
  have "(j, k) \<in> set (pairs s) \<longleftrightarrow> k < j \<and> int j < s - 2" for j k
    by (cases "j = 0") (force simp: pairs_def js_def)+
  then show ?thesis by auto
qed

lemma recursive_int_unfold:
  assumes "s \<noteq> 0" "reduce b s n = Inr c"
  shows "recursive_int b s w g n =
     Option.bind (recursive_int c (s - 2) (- w) g n) (\<lambda>r.
       (case and_then r (\<lambda>h. and_then (augment_g b g n) (\<lambda>e.
               and_then (augment_c b s n c) (\<lambda>c'. Inr (h, e, c')))) of
          Inl x \<Rightarrow> Some (Inl x)
        | Inr (h, e, c') \<Rightarrow>
            Option.bind (recursive_int c' (s - 2) w e n) (\<lambda>r'.
              Some (and_then r' (\<lambda>h'. Inr (h + h'))))))"
  using assms by (subst recursive_int.simps) simp

lemma recursive_int_base:
  "recursive_int b 0 w g n = Some (and_then (vget g n) (\<lambda>gn. Inr (of_int w * gn)))"
  by (subst recursive_int.simps) simp

text \<open>
  Claim C8 (as amended).  For even \<open>s \<ge> 2\<close>, when the reduce step reads inside \<open>b\<close>,
  the reduced array \<open>c\<close> consists of exactly the rows \<open>b[(j+1)(j+2)/2 + k + 2]\<close>
  (their first \<open>n+1\<close> entries) for the index pairs with \<open>0 \<le> k < j < s - 2\<close>, in loop
  order; the first recursive call is \<open>recursive_int c (s - 2) (- w) g n\<close>, whose result
  is then combined with the second call; and at \<open>s = 0\<close> the engine returns
  \<open>w * g[n]\<close>.
\<close>

theorem reduce_step_rows:
  assumes "even s" "2 \<le> s" "reduce b s n = Inr c"
  shows "c = rows_from b n (pairs s) \<and>
         set (pairs s) = {(j, k). k < j \<and> int j < s - 2} \<and>
         recursive_int b s w g n =
           Option.bind (recursive_int c (s - 2) (- w) g n) (\<lambda>r.
             (case and_then r (\<lambda>h. and_then (augment_g b g n) (\<lambda>e.
                     and_then (augment_c b s n c) (\<lambda>c'. Inr (h, e, c')))) of
                Inl x \<Rightarrow> Some (Inl x)
              | Inr (h, e, c') \<Rightarrow>
                  Option.bind (recursive_int c' (s - 2) w e n) (\<lambda>r'.
                    Some (and_then r' (\<lambda>h'. Inr (h + h')))))) \<and>
         (n < length g \<longrightarrow> recursive_int b 0 w g n = Some (Inr (of_int w * g ! n)))"
proof -
  have "c = rows_from b n (pairs s)"
    using assms(3) reduce_eq [OF assms(2), of b n] by (simp split: if_splits)
  moreover have "s \<noteq> 0" using assms(2) by simp
  ultimately show ?thesis
    using assms(3) by (simp add: set_pairs recursive_int_unfold recursive_int_base)
qed

text \<open>The statement at the first level of \<^verbatim>\<open>hafnian_int\<close> on the all-ones matrix of order 4.\<close>

theorem reduce_step_rows_witness:
  "[[1, 0, 0]] = rows_from (replicate 6 [1, 0, 0]) 2 (pairs 4) \<and>
   recursive_int (replicate 6 [1, 0, 0]) 4 1 [1, 0, 0] 2 = Some (Inr 3) \<and>
   recursive_int (replicate 6 [1, 0, 0]) 0 1 [1, 0, 0] 2 = Some (Inr 0)"
proof -
  have r: "reduce (replicate 6 [1, 0, 0]) 4 2 = Inr [[1, 0, 0]]"
    by code_simp
  have e: "even (4::int)" "(2::int) \<le> 4" by simp_all
  have v: "recursive_int (replicate 6 [1, 0, 0]) 4 1 [1, 0, 0] 2 = Some (Inr 3)"
    by code_simp
  from reduce_step_rows [OF e r, of 1 "[1, 0, 0]"]
  have a: "[[1, 0, 0]] = rows_from (replicate 6 [1, 0, 0]) 2 (pairs 4)"
    and b: "2 < length [1, 0, 0::llint] \<longrightarrow>
      recursive_int (replicate 6 [1, 0, 0]) 0 1 [1, 0, 0] 2 = Some (Inr (of_int 1 * [1, 0, 0] ! 2))"
    by blast+
  from b have "recursive_int (replicate 6 [1, 0, 0]) 0 1 [1, 0, 0] 2 = Some (Inr 0)"
    by simp
  with a v show ?thesis by blast
qed

text \<open>
  Claim C8 as worded, with \<open>1 \<le> k < j < s - 2\<close>: at \<open>s = 4\<close> there is no such pair, yet
  the reduce step builds one row, from \<open>b[5]\<close> (the pair \<open>j = 1\<close>, \<open>k = 0\<close>).
\<close>

theorem reduce_rows_claimed_counterexample:
  "reduce [[1], [2], [3], [4], [5], [6]] 4 0 = Inr [[6]] \<and>
   rows_from [[1], [2], [3], [4], [5], [6]] 0 (pairs_claimed 4) = []"
  by code_simp

section \<open>The engine stays inside its arrays and returns\<close>

lemma tri_index_bound:
  fixes j k S :: nat
  assumes "k < j" "j + 3 \<le> S"
  shows "(j + 1) * (j + 2) div 2 + k + 2 < S * (S - 1) div 2"
proof -
  have "(j + 3) * (j + 2) \<le> S * (S - 1)"
    using assms(2) by (intro mult_le_mono) auto
  moreover have "(j + 1) * (j + 2) + 2 * k + 6 \<le> (j + 3) * (j + 2)"
    using assms(1) by (simp add: algebra_simps)
  moreover have "2 * ((j + 1) * (j + 2) div 2) = (j + 1) * (j + 2)"
    by simp
  ultimately show ?thesis by linarith
qed

lemma tri_mono:
  fixes j k :: nat
  assumes "k \<le> j"
  shows "(k + 1) * (k + 2) div 2 \<le> (j + 1) * (j + 2) div 2"
  using assms by (intro div_le_mono mult_le_mono) auto

lemma pair_index_bound:
  fixes j k M :: nat
  assumes "k < j" "j < M"
  shows "j * (j - 1) div 2 + k < M * (M - 1) div 2"
proof -
  have "Suc j * (Suc j - 1) div 2 \<le> M * (M - 1) div 2"
    using assms(2) by (intro div_le_mono mult_le_mono) auto
  moreover have "j * (j - 1) div 2 + j = Suc j * (Suc j - 1) div 2"
    by (rule tri_step)
  ultimately show ?thesis using assms(1) by linarith
qed

lemma nat_int_div2: "nat (int a div 2) = a div 2"
  by (metis nat_int of_nat_numeral zdiv_int)

lemma nat_tri:
  assumes "0 \<le> s"
  shows "nat (s * (s - 1) div 2) = nat s * (nat s - 1) div 2"
proof -
  define S where "S = nat s"
  have s: "s = int S" using assms by (simp add: S_def)
  have "s * (s - 1) = int (S * (S - 1))"
    unfolding s by (cases S) (simp_all add: algebra_simps)
  then show ?thesis
    by (simp only: nat_int_div2 S_def)
qed

lemma rows_ok_pairs:
  assumes "2 \<le> s" "nat (s * (s - 1) div 2) \<le> length b" "\<forall>r\<in>set b. n < length r"
  shows "rows_ok b n (pairs s)"
proof -
  have len: "nat s * (nat s - 1) div 2 \<le> length b"
    using assms(1,2) by (simp add: nat_tri)
  have "(j + 1) * (j + 2) div 2 + k + 2 < length b \<and> n < length (b ! ((j + 1) * (j + 2) div 2 + k + 2))"
    if "(j, k) \<in> set (pairs s)" for j k
  proof -
    from that have "k < j" "j + 3 \<le> nat s" by (auto simp: set_pairs)
    then have "(j + 1) * (j + 2) div 2 + k + 2 < length b"
      using tri_index_bound [of k j "nat s"] len by linarith
    then show ?thesis using assms(3) by simp
  qed
  then show ?thesis by (auto simp: rows_ok_def list_all_iff)
qed

lemma reduce_shape:
  assumes "2 \<le> s" "nat (s * (s - 1) div 2) \<le> length b" "\<forall>r\<in>set b. n < length r"
  shows "\<exists>c. reduce b s n = Inr c \<and> length c = nat ((s - 2) * (s - 2 - 1) div 2) \<and>
             (\<forall>r\<in>set c. length r = n + 1)"
proof -
  have ok: "rows_ok b n (pairs s)" by (rule rows_ok_pairs [OF assms])
  then have "\<forall>r\<in>set (rows_from b n (pairs s)). length r = n + 1"
    by (auto simp: rows_ok_def rows_from_def list_all_iff)
  moreover have "(s - 2) * (s - 2 - 1) = (s - 2) * (s - 3)" by simp
  ultimately show ?thesis
    using ok by (simp add: reduce_eq [OF assms(1)] rows_from_def length_pairs [OF assms(1)])
qed

lemma augment_g_shape:
  assumes "0 < length b" "n \<le> length (b ! 0)" "n < length g"
  shows "\<exists>e. augment_g b g n = Inr e \<and> length e = length g"
  unfolding augment_g_def
proof (rule for_each_inv [where P = "\<lambda>e. length e = length g"])
  show "length g = length g" by simp
next
  fix u and e :: "llint list"
  assume u: "u \<in> set [0 ..< n]" and e: "length e = length g"
  show "\<exists>e'. for_each (augment_g_cell b g u) [0 ..< n - u] e = Inr e' \<and> length e' = length g"
  proof (rule for_each_inv [where P = "\<lambda>e. length e = length g"])
    show "length e = length g" by (rule e)
  next
    fix v and e1 :: "llint list"
    assume v: "v \<in> set [0 ..< n - u]" and e1: "length e1 = length g"
    then show "\<exists>e'. augment_g_cell b g u v e1 = Inr e' \<and> length e' = length g"
      using u assms by (simp add: augment_g_cell_def vget2_eq)
  qed
qed

lemma augment_c_shape:
  assumes "2 \<le> s" "nat (s * (s - 1) div 2) \<le> length b" "\<forall>r\<in>set b. n < length r"
    and "length c = nat ((s - 2) * (s - 2 - 1) div 2)" "\<forall>r\<in>set c. length r = n + 1"
  shows "\<exists>c'. augment_c b s n c = Inr c' \<and> length c' = nat ((s - 2) * (s - 2 - 1) div 2) \<and>
             (\<forall>r\<in>set c'. length r = n + 1)"
proof -
  define P where "P = (\<lambda>c :: llint list list. length c = nat ((s - 2) * (s - 2 - 1) div 2) \<and>
             (\<forall>r\<in>set c. length r = n + 1))"
  have lenb: "nat s * (nat s - 1) div 2 \<le> length b"
    using assms(1,2) by (simp add: nat_tri)
  have lenc: "length x = nat (s - 2) * (nat (s - 2) - 1) div 2" if "P x" for x
    using that assms(1) nat_tri [of "s - 2"] by (simp add: P_def)
  have cell: "\<exists>c'. augment_c_cell b j k u v x = Inr c' \<and> P c'"
    if "j \<in> set (js s)" "k < j" "u < n" "v < n - u" "P x" for j k u v x
  proof -
    from that(1) have j: "1 \<le> j" "j + 3 \<le> nat s" "j < nat (s - 2)" by (auto simp: js_def)
    have b1: "(j + 1) * (j + 2) div 2 + 1 < length b"
      using tri_index_bound [of 0 j "nat s"] j lenb by linarith
    have b2: "(k + 1) * (k + 2) div 2 + 1 < length b"
      using tri_mono [of k j] that(2) b1 by linarith
    have rb: "n < length (b ! i)" if "i < length b" for i
      using assms(3) that by simp
    have ci: "j * (j - 1) div 2 + k < length x"
      using pair_index_bound [OF that(2) j(3)] lenc [OF that(5)] by simp
    then have rc: "length (x ! (j * (j - 1) div 2 + k)) = n + 1"
      using that(5) by (simp add: P_def)
    define ci where "ci = j * (j - 1) div 2 + k"
    define i1 where "i1 = (j + 1) * (j + 2) div 2"
    define i2 where "i2 = (k + 1) * (k + 2) div 2"
    have r1: "i1 < length b" "u < length (b ! i1)" "Suc i1 < length b" "v < length (b ! Suc i1)"
      using b1 rb [of i1] rb [of "Suc i1"] that(3,4) by (simp_all add: i1_def)
    have r2: "i2 < length b" "u < length (b ! i2)" "Suc i2 < length b" "v < length (b ! Suc i2)"
      using b2 rb [of i2] rb [of "Suc i2"] that(3,4) by (simp_all add: i2_def)
    have r3: "ci < length x" "u + v + 1 < length (x ! ci)"
      using ci rc that(3,4) by (simp_all add: ci_def)
    have "augment_c_cell b j k u v x =
        and_then (vget2 b i1 u) (\<lambda>bju.
        and_then (vget2 b (Suc i2) v) (\<lambda>bkv.
        and_then (vget2 b i2 u) (\<lambda>bku.
        and_then (vget2 b (Suc i1) v) (\<lambda>bjv.
        and_then (vget2 x ci (u + v + 1)) (\<lambda>cv.
          vset2 x ci (u + v + 1) (cv + (bju * bkv + bku * bjv)))))))"
      by (simp add: augment_c_cell_def ci_def i1_def i2_def)
    also have "\<dots> = Inr (x[ci := (x ! ci)[u + v + 1 :=
         x ! ci ! (u + v + 1) + (b ! i1 ! u * b ! Suc i2 ! v + b ! i2 ! u * b ! Suc i1 ! v)]])"
      using r1 r2 r3 by (simp add: vget2_eq vset2_eq)
    finally have eq: "augment_c_cell b j k u v x = Inr (x[ci := (x ! ci)[u + v + 1 :=
         x ! ci ! (u + v + 1) + (b ! i1 ! u * b ! Suc i2 ! v + b ! i2 ! u * b ! Suc i1 ! v)]])" .
    have "P (x[ci := r'])" if "length r' = n + 1" for r'
      using that \<open>P x\<close> by (auto simp: P_def dest!: subsetD [OF set_update_subset_insert])
    moreover have "length ((x ! ci)[u + v + 1 :=
         x ! ci ! (u + v + 1) + (b ! i1 ! u * b ! Suc i2 ! v + b ! i2 ! u * b ! Suc i1 ! v)]) = n + 1"
      using rc by (simp add: ci_def)
    ultimately show ?thesis
      unfolding eq by blast
  qed
  have "\<exists>c'. augment_c b s n c = Inr c' \<and> P c'"
    unfolding augment_c_def
    apply (rule for_each_inv [where P = P])
     apply (simp add: P_def assms)
    apply (rule for_each_inv [where P = P], assumption)
    apply (rule for_each_inv [where P = P], assumption)
    apply (rule for_each_inv [where P = P], assumption)
    apply (rule cell)
    apply simp_all
    done
  then show ?thesis by (simp add: P_def)
qed

lemma recursive_int_value:
  assumes "even s" "0 \<le> s"
    and "nat (s * (s - 1) div 2) \<le> length b" "\<forall>r\<in>set b. n < length r" "n < length g"
  shows "\<exists>h. recursive_int b s w g n = Some (Inr h)"
  using assms
proof (induction "nat s" arbitrary: s b w g rule: less_induct)
  case less
  show ?case
  proof (cases "s = 0")
    case True
    then show ?thesis
      using less.prems(5) by (simp add: recursive_int_base)
  next
    case False
    then have s2: "2 \<le> s" using less.prems(1,2) by presburger
    then have small: "nat (s - 2) < nat s" "even (s - 2)" "0 \<le> s - 2"
      using less.prems(1) by simp_all
    obtain c where c: "reduce b s n = Inr c" "length c = nat ((s - 2) * (s - 2 - 1) div 2)"
        "\<forall>r\<in>set c. length r = n + 1"
      using reduce_shape [OF s2 less.prems(3,4)] by blast
    have cn: "\<forall>r\<in>set c. n < length r" using c(3) by simp
    obtain h where h: "recursive_int c (s - 2) (- w) g n = Some (Inr h)"
      using less.hyps [OF small _ cn less.prems(5), of "- w"] c(2) by auto
    have "2 * 1 \<le> nat s * (nat s - 1)"
      using s2 by (intro mult_le_mono) auto
    then have "0 < nat s * (nat s - 1) div 2" by linarith
    then have b00: "0 < length b"
      using less.prems(3) nat_tri [OF less.prems(2)] by (cases b) simp_all
    then have "n < length (b ! 0)"
      using less.prems(4) nth_mem by blast
    with b00 have b0: "0 < length b" "n \<le> length (b ! 0)"
      by simp_all
    obtain e where e: "augment_g b g n = Inr e" "length e = length g"
      using augment_g_shape [OF b0 less.prems(5)] by blast
    obtain c' where c': "augment_c b s n c = Inr c'"
        "length c' = nat ((s - 2) * (s - 2 - 1) div 2)" "\<forall>r\<in>set c'. length r = n + 1"
      using augment_c_shape [OF s2 less.prems(3,4) c(2,3)] by blast
    have cn': "\<forall>r\<in>set c'. n < length r" using c'(3) by simp
    have en: "n < length e" using e(2) less.prems(5) by simp
    obtain h' where h': "recursive_int c' (s - 2) w e n = Some (Inr h')"
      using less.hyps [OF small _ cn' en, of w] c'(2) by auto
    show ?thesis
      using False by (simp add: recursive_int_unfold [OF False c(1)] h e(1) c'(1) h')
  qed
qed


section \<open>Seeding the integer engine\<close>

lemma lower_pairs_Suc:
  "0 < M \<Longrightarrow> lower_pairs (Suc M) = lower_pairs M @ map (Pair M) [0 ..< M]"
  by (simp add: lower_pairs_def)

lemma length_lower_pairs: "length (lower_pairs M) = M * (M - 1) div 2"
  using length_pairs_upto [of M] by (simp add: lower_pairs_def)

lemma set_lower_pairs: "set (lower_pairs M) = {(j, k). k < j \<and> j < M}"
proof -
  have "(j, k) \<in> set (lower_pairs M) \<longleftrightarrow> k < j \<and> j < M" for j k
    by (cases "j = 0") (force simp: lower_pairs_def)+
  then show ?thesis by auto
qed

lemma lower_pairs_nth:
  "k < j \<Longrightarrow> j < M \<Longrightarrow> lower_pairs M ! (j * (j - 1) div 2 + k) = (j, k)"
proof (induction M)
  case 0
  then show ?case by simp
next
  case (Suc M)
  then have M: "0 < M" by simp
  show ?case
  proof (cases "j < M")
    case True
    then have "j * (j - 1) div 2 + k < length (lower_pairs M)"
      using pair_index_bound [OF Suc.prems(1) True] by (simp add: length_lower_pairs)
    then show ?thesis
      using Suc True by (simp add: lower_pairs_Suc [OF M] nth_append)
  next
    case False
    then have "j = M" using Suc.prems by simp
    then show ?thesis
      using Suc.prems(1) by (simp add: lower_pairs_Suc [OF M] nth_append length_lower_pairs)
  qed
qed

lemma seed_inner:
  assumes "length A = j * (j - 1) div 2" "K \<le> R" "\<forall>k<K. 2 * j * n + k < length mat"
  shows "for_each (seed_cell mat n j) [0 ..< K] (A @ replicate R (replicate (n + 1) 0)) =
     Inr (A @ map (\<lambda>k. mat ! (2 * j * n + k) # replicate n 0) [0 ..< K]
            @ replicate (R - K) (replicate (n + 1) 0))"
  using assms(2,3)
proof (induction K)
  case 0
  then show ?case by simp
next
  case (Suc K)
  define zr where "zr = replicate (n + 1) (0::llint)"
  define B where "B = A @ map (\<lambda>k. mat ! (2 * j * n + k) # replicate n 0) [0 ..< K]"
  have IH: "for_each (seed_cell mat n j) [0 ..< K] (A @ replicate R zr) =
      Inr (B @ replicate (R - K) zr)"
    using Suc by (simp add: zr_def B_def)
  have lenB: "length B = j * (j - 1) div 2 + K"
    by (simp add: B_def assms(1))
  have rep: "replicate (R - K) zr = zr # replicate (R - Suc K) zr"
    using Suc.prems(1) by (cases "R - K") (simp_all add: Suc_diff_Suc)
  have cell: "seed_cell mat n j K (B @ replicate (R - K) zr) =
      Inr (B @ (mat ! (2 * j * n + K) # replicate n 0) # replicate (R - Suc K) zr)"
    using Suc.prems(2) lenB unfolding rep
    by (simp add: seed_cell_def vset2_eq nth_append list_update_append zr_def)
  have "for_each (seed_cell mat n j) [0 ..< Suc K] (A @ replicate R zr) =
      and_then (for_each (seed_cell mat n j) [0 ..< K] (A @ replicate R zr)) (seed_cell mat n j K)"
    by (simp add: for_each_append and_then_def split: sum.splits)
  also have "\<dots> = Inr (B @ (mat ! (2 * j * n + K) # replicate n 0) # replicate (R - Suc K) zr)"
    by (simp add: IH cell)
  finally show ?case
    by (simp add: zr_def B_def)
qed

lemma seed_outer:
  assumes "\<forall>j<M. \<forall>k<j. 2 * j * n + k < length mat" "M * (M - 1) div 2 \<le> N"
  shows "for_each (\<lambda>j. for_each (seed_cell mat n j) [0 ..< j]) [Suc 0 ..< M]
           (replicate N (replicate (n + 1) 0)) =
     Inr (map (\<lambda>(j, k). mat ! (2 * j * n + k) # replicate n 0) (lower_pairs M)
            @ replicate (N - M * (M - 1) div 2) (replicate (n + 1) 0))"
  using assms
proof (induction M)
  case 0
  then show ?case by (simp add: lower_pairs_def)
next
  case (Suc M)
  show ?case
  proof (cases "M = 0")
    case True
    then show ?thesis by (simp add: lower_pairs_def)
  next
    case False
    define zr where "zr = replicate (n + 1) (0::llint)"
    define A where "A = map (\<lambda>(j, k). mat ! (2 * j * n + k) # replicate n 0) (lower_pairs M)"
    define R where "R = N - M * (M - 1) div 2"
    have tri: "M * (M - 1) div 2 + M = Suc M * (Suc M - 1) div 2" by (rule tri_step)
    then have le: "M * (M - 1) div 2 \<le> N" "M \<le> R"
      using Suc.prems(2) by (simp_all add: R_def)
    have IH: "for_each (\<lambda>j. for_each (seed_cell mat n j) [0 ..< j]) [Suc 0 ..< M] (replicate N zr) =
       Inr (A @ replicate R zr)"
      using Suc.IH [OF _ le(1)] Suc.prems(1) by (simp add: zr_def A_def R_def)
    have lenA: "length A = M * (M - 1) div 2"
      by (simp add: A_def length_lower_pairs)
    have inner: "for_each (seed_cell mat n M) [0 ..< M] (A @ replicate R zr) =
       Inr (A @ map (\<lambda>k. mat ! (2 * M * n + k) # replicate n 0) [0 ..< M] @ replicate (R - M) zr)"
      unfolding zr_def by (rule seed_inner [OF lenA le(2)]) (use Suc.prems(1) in auto)
    have upt: "[Suc 0 ..< Suc M] = [Suc 0 ..< M] @ [M]" using False by simp
    have RM: "R - M = N - Suc M * (Suc M - 1) div 2"
      using tri by (simp add: R_def)
    have "for_each (\<lambda>j. for_each (seed_cell mat n j) [0 ..< j]) [Suc 0 ..< Suc M] (replicate N zr) =
       Inr (A @ map (\<lambda>k. mat ! (2 * M * n + k) # replicate n 0) [0 ..< M] @ replicate (R - M) zr)"
      unfolding upt for_each_append IH by (simp add: inner)
    then show ?thesis
      using False unfolding RM by (simp add: zr_def A_def lower_pairs_Suc comp_def)
  qed
qed


lemma isqrt_from_sq: "isqrt_from k r * isqrt_from k r \<le> k"
  by (induction r) auto

lemma isqrt_from_max: "m \<le> r \<Longrightarrow> m * m \<le> k \<Longrightarrow> m \<le> isqrt_from k r"
  by (induction r) (auto simp: le_Suc_eq)

lemma isqrt_sq: "isqrt k * isqrt k \<le> k"
  by (simp add: isqrt_def isqrt_from_sq)

lemma isqrt_max:
  assumes "m * m \<le> k"
  shows "m \<le> isqrt k"
proof -
  have "m \<le> m * m" by (cases m) auto
  with assms have "m \<le> k" by (rule order_trans [rotated])
  then show ?thesis
    unfolding isqrt_def using assms by (rule isqrt_from_max)
qed

lemma isqrt_floor: "isqrt k = nat \<lfloor>sqrt (real k)\<rfloor>"
proof (rule antisym)
  have "real (isqrt k * isqrt k) \<le> real k"
    using isqrt_sq [of k] by (simp only: of_nat_le_iff)
  then have "(real (isqrt k))\<^sup>2 \<le> real k"
    by (simp add: power2_eq_square)
  then have "real (isqrt k) \<le> sqrt (real k)"
    by (rule real_le_rsqrt)
  then show "isqrt k \<le> nat \<lfloor>sqrt (real k)\<rfloor>"
    by (simp add: le_nat_floor)
next
  define r where "r = nat \<lfloor>sqrt (real k)\<rfloor>"
  have "real r \<le> sqrt (real k)"
    by (simp add: r_def)
  then have "(real r)\<^sup>2 \<le> real k"
    by (metis of_nat_0_le_iff real_sqrt_le_iff real_sqrt_abs abs_of_nonneg)
  then have "r * r \<le> k"
    by (metis of_nat_le_iff of_nat_mult power2_eq_square)
  then show "nat \<lfloor>sqrt (real k)\<rfloor> \<le> isqrt k"
    unfolding r_def [symmetric] by (rule isqrt_max)
qed

lemma half_sqrt_floor: "isqrt k div 2 = nat \<lfloor>sqrt (real k) / 2\<rfloor>"
proof -
  have "\<lfloor>sqrt (real k) / real_of_int 2\<rfloor> = \<lfloor>sqrt (real k)\<rfloor> div 2"
    by (rule floor_divide_real_eq_div) simp
  then have "nat \<lfloor>sqrt (real k) / 2\<rfloor> = nat (\<lfloor>sqrt (real k)\<rfloor> div 2)"
    by simp
  also have "\<dots> = nat \<lfloor>sqrt (real k)\<rfloor> div 2"
    by (simp add: nat_div_distrib)
  finally show ?thesis by (simp add: isqrt_floor)
qed

lemma seed_index_in_range:
  assumes "k < j" "j < 2 * (isqrt L div 2)"
  shows "2 * j * (isqrt L div 2) + k < L"
proof -
  define n where "n = isqrt L div 2"
  have "2 * j * n + k < 2 * n * (j + 1)"
    using assms by (simp add: n_def algebra_simps)
  also have "\<dots> \<le> 2 * n * (2 * n)"
    using assms(2) by (intro mult_le_mono) (auto simp: n_def)
  also have "\<dots> \<le> isqrt L * isqrt L"
    by (intro mult_le_mono) (auto simp: n_def)
  also have "\<dots> \<le> L" by (rule isqrt_sq)
  finally show ?thesis by (simp add: n_def)
qed

lemma seed_eq:
  "seed mat (isqrt (length mat) div 2) =
     Inr (map (\<lambda>(j, k). mat ! (2 * j * (isqrt (length mat) div 2) + k)
                 # replicate (isqrt (length mat) div 2) 0)
            (lower_pairs (2 * (isqrt (length mat) div 2))))"
proof -
  define n where "n = isqrt (length mat) div 2"
  have tri: "2 * n * (2 * n - 1) div 2 = n * (2 * n - 1)"
    by (simp add: mult.assoc)
  have "for_each (\<lambda>j. for_each (seed_cell mat n j) [0 ..< j]) [Suc 0 ..< 2 * n]
           (replicate (n * (2 * n - 1)) (replicate (n + 1) 0)) =
     Inr (map (\<lambda>(j, k). mat ! (2 * j * n + k) # replicate n 0) (lower_pairs (2 * n))
            @ replicate (n * (2 * n - 1) - 2 * n * (2 * n - 1) div 2) (replicate (n + 1) 0))"
    by (rule seed_outer) (auto simp: n_def seed_index_in_range tri [unfolded n_def])
  then show ?thesis
    unfolding tri by (simp add: seed_def n_def)
qed

text \<open>
  Claim C7 (as amended).  With \<open>n = \<lfloor>\<surd>|mat|\<rfloor> div 2\<close>, \<^verbatim>\<open>hafnian_int\<close> seeds the
  triangular array \<open>z\<close> of \<open>n(2n-1)\<close> rows with the constant terms \<open>mat[2jn + k]\<close> at
  row \<open>j(j-1)/2 + k\<close> for \<open>1 \<le> j < 2n\<close> and \<open>0 \<le> k < j\<close>, every other coefficient
  zero, sets \<open>g = [1, 0, \<dots>, 0]\<close> and the sign \<open>w = 1\<close>, and calls the recursive engine
  at size \<open>s = 2n\<close> with degree bound \<open>n\<close>.
\<close>

theorem hafnian_int_seeding:
  "let n = isqrt (length mat) div 2;
       z = map (\<lambda>(j, k). mat ! (2 * j * n + k) # replicate n 0) (lower_pairs (2 * n))
   in hafnian_int mat = recursive_int z (2 * int n) 1 (1 # replicate n 0) n \<and>
      length z = n * (2 * n - 1) \<and>
      (\<forall>j k. k < j \<and> j < 2 * n \<longrightarrow>
         z ! (j * (j - 1) div 2 + k) = mat ! (2 * j * n + k) # replicate n 0)"
proof -
  define n where "n = isqrt (length mat) div 2"
  define z where "z = map (\<lambda>(j, k). mat ! (2 * j * n + k) # replicate n 0) (lower_pairs (2 * n))"
  have tri: "2 * n * (2 * n - 1) div 2 = n * (2 * n - 1)"
    by (simp add: mult.assoc)
  have 1: "hafnian_int mat = recursive_int z (2 * int n) 1 (1 # replicate n 0) n"
    using seed_eq [of mat] by (simp add: hafnian_int_def Let_def n_def z_def)
  have 2: "length z = n * (2 * n - 1)"
    by (simp add: z_def length_lower_pairs tri)
  have 3: "z ! (j * (j - 1) div 2 + k) = mat ! (2 * j * n + k) # replicate n 0"
    if "k < j" "j < 2 * n" for j k
  proof -
    have "j * (j - 1) div 2 + k < length (lower_pairs (2 * n))"
      using pair_index_bound [OF that] by (simp add: length_lower_pairs)
    then show ?thesis
      using lower_pairs_nth [OF that] by (simp add: z_def)
  qed
  from 1 2 3 show ?thesis
    unfolding Let_def n_def [symmetric] z_def [symmetric] by blast
qed

text \<open>The statement at the matrix \<open>[[0, 1], [1, 0]]\<close>, at the pair \<open>j = 1\<close>, \<open>k = 0\<close>.\<close>

theorem hafnian_int_seeding_witness:
  "hafnian_int [0, 1, 1, 0] = recursive_int [[1, 0]] 2 1 [1, 0] 1 \<and>
   (0::nat) < 1 \<and> (1::nat) < 2 * 1 \<and>
   [[1, 0 :: llint]] ! (1 * (1 - 1) div 2 + 0) = [0, 1, 1, 0] ! (2 * 1 * 1 + 0) # replicate 1 0"
proof -
  have L: "length [0, 1, 1, 0 :: llint] = 4" by simp
  have n: "isqrt 4 div 2 = 1" by code_simp
  have lp: "lower_pairs 2 = [(1, 0)]" by code_simp
  show ?thesis
    using hafnian_int_seeding [of "[0, 1, 1, 0]", unfolded Let_def L n] by (simp add: lp)
qed

text \<open>
  Claim C7 as worded, with \<open>1 \<le> j < n\<close>: for the matrix \<open>[[0, 1], [1, 0]]\<close> (so
  \<open>n = 1\<close>) no pair qualifies and every coefficient would be zero, but the code stores
  \<open>mat[2]\<close> as the constant term of row 0.
\<close>

theorem seed_claimed_counterexample:
  "isqrt (length [0, 1, 1, 0 :: llint]) div 2 = 1 \<and>
   seed [0, 1, 1, 0] 1 = Inr [[1, 0]] \<and> seed_claimed [0, 1, 1, 0] 1 = [[0, 0]]"
  by code_simp

lemma hafnian_int_value: "\<exists>h. hafnian_int mat = Some (Inr h)"
proof -
  define n where "n = isqrt (length mat) div 2"
  define z where "z = map (\<lambda>(j, k). mat ! (2 * j * n + k) # replicate n 0) (lower_pairs (2 * n))"
  have tri: "2 * n * (2 * n - 1) div 2 = n * (2 * n - 1)"
    by (simp add: mult.assoc)
  have eq: "hafnian_int mat = recursive_int z (2 * int n) 1 ((replicate (n + 1) 0)[0 := 1]) n"
    using seed_eq [of mat] by (simp add: hafnian_int_def Let_def n_def z_def)
  have "nat (2 * int n * (2 * int n - 1) div 2) = nat (2 * int n) * (nat (2 * int n) - 1) div 2"
    by (rule nat_tri) simp
  also have "\<dots> = 2 * n * (2 * n - 1) div 2"
    by (simp add: nat_mult_distrib)
  finally have "nat (2 * int n * (2 * int n - 1) div 2) \<le> length z"
    by (simp add: z_def length_lower_pairs)
  moreover have "\<forall>r\<in>set z. n < length r"
    by (auto simp: z_def)
  ultimately show ?thesis
    unfolding eq by (intro recursive_int_value) simp_all
qed

text \<open>
  Claim C10 (as amended).  For every even \<open>s \<ge> 0\<close>, every degree bound \<open>n\<close>, every
  \<open>g\<close> with more than \<open>n\<close> entries and every array \<open>b\<close> with at least \<open>s(s-1)/2\<close>
  rows of more than \<open>n\<close> entries, the engine returns a value.  When \<open>s \<noteq> 0\<close> it does
  so through two recursive calls at size \<open>s - 2\<close>, both of which return.  The call made
  by \<^verbatim>\<open>hafnian_int\<close> (size \<open>2n\<close>) always returns.
\<close>

theorem recursive_int_terminates:
  assumes "even s" "0 \<le> s"
    and "nat (s * (s - 1) div 2) \<le> length b" "\<forall>r\<in>set b. n < length r" "n < length g"
  shows "(\<exists>h. recursive_int b s w g n = Some (Inr h)) \<and>
         (s \<noteq> 0 \<longrightarrow> (\<exists>c e c' h h'.
             reduce b s n = Inr c \<and> augment_g b g n = Inr e \<and> augment_c b s n c = Inr c' \<and>
             recursive_int c (s - 2) (- w) g n = Some (Inr h) \<and>
             recursive_int c' (s - 2) w e n = Some (Inr h') \<and>
             recursive_int b s w g n = Some (Inr (h + h')))) \<and>
         (\<exists>h. hafnian_int mat = Some (Inr h))"
proof (intro conjI impI)
  show "\<exists>h. recursive_int b s w g n = Some (Inr h)"
    using assms by (rule recursive_int_value)
  show "\<exists>h. hafnian_int mat = Some (Inr h)"
    by (rule hafnian_int_value)
next
  assume nz: "s \<noteq> 0"
  then have s2: "2 \<le> s" using assms(1,2) by presburger
  then have small: "even (s - 2)" "0 \<le> s - 2"
    using assms(1) by simp_all
  obtain c where c: "reduce b s n = Inr c" "length c = nat ((s - 2) * (s - 2 - 1) div 2)"
      "\<forall>r\<in>set c. length r = n + 1"
    using reduce_shape [OF s2 assms(3,4)] by blast
  have cn: "\<forall>r\<in>set c. n < length r" using c(3) by simp
  obtain h where h: "recursive_int c (s - 2) (- w) g n = Some (Inr h)"
    using recursive_int_value [OF small _ cn assms(5), of "- w"] c(2) by auto
  have "2 * 1 \<le> nat s * (nat s - 1)"
    using s2 by (intro mult_le_mono) auto
  then have "0 < nat s * (nat s - 1) div 2" by linarith
  then have b00: "0 < length b"
    using assms(3) nat_tri [OF assms(2)] by (cases b) simp_all
  then have "n < length (b ! 0)"
    using assms(4) nth_mem by blast
  with b00 have b0: "0 < length b" "n \<le> length (b ! 0)"
    by simp_all
  obtain e where e: "augment_g b g n = Inr e" "length e = length g"
    using augment_g_shape [OF b0 assms(5)] by blast
  obtain c' where c': "augment_c b s n c = Inr c'"
      "length c' = nat ((s - 2) * (s - 2 - 1) div 2)" "\<forall>r\<in>set c'. length r = n + 1"
    using augment_c_shape [OF s2 assms(3,4) c(2,3)] by blast
  have cn': "\<forall>r\<in>set c'. n < length r" using c'(3) by simp
  have en: "n < length e" using e(2) assms(5) by simp
  obtain h' where h': "recursive_int c' (s - 2) w e n = Some (Inr h')"
    using recursive_int_value [OF small _ cn' en, of w] c'(2) by auto
  have "recursive_int b s w g n = Some (Inr (h + h'))"
    by (simp add: recursive_int_unfold [OF nz c(1)] h e(1) c'(1) h')
  with c(1) e(1) c'(1) h h'
  show "\<exists>c e c' h h'.
         reduce b s n = Inr c \<and> augment_g b g n = Inr e \<and> augment_c b s n c = Inr c' \<and>
         recursive_int c (s - 2) (- w) g n = Some (Inr h) \<and>
         recursive_int c' (s - 2) w e n = Some (Inr h') \<and>
         recursive_int b s w g n = Some (Inr (h + h'))"
    by blast
qed

text \<open>The statement at the first call of \<^verbatim>\<open>hafnian_int\<close> on the all-ones matrix of order 4.\<close>

theorem recursive_int_terminates_witness:
  "even (4::int) \<and> (0::int) \<le> 4 \<and> (4::int) \<noteq> 0 \<and>
   nat (4 * (4 - 1) div 2) \<le> length (replicate 6 [1, 0, 0 :: llint]) \<and>
   (\<exists>h. recursive_int (replicate 6 [1, 0, 0]) 4 1 [1, 0, 0] 2 = Some (Inr h)) \<and>
   (\<exists>c e c' h h'.
       reduce (replicate 6 [1, 0, 0]) 4 2 = Inr c \<and>
       augment_g (replicate 6 [1, 0, 0]) [1, 0, 0] 2 = Inr e \<and>
       augment_c (replicate 6 [1, 0, 0]) 4 2 c = Inr c' \<and>
       recursive_int c (4 - 2) (- 1) [1, 0, 0] 2 = Some (Inr h) \<and>
       recursive_int c' (4 - 2) 1 e 2 = Some (Inr h') \<and>
       recursive_int (replicate 6 [1, 0, 0]) 4 1 [1, 0, 0] 2 = Some (Inr (h + h'))) \<and>
   (\<exists>h. hafnian_int (replicate 16 1) = Some (Inr h))"
proof -
  have h: "even (4::int)" "(0::int) \<le> 4"
    "nat (4 * (4 - 1) div 2) \<le> length (replicate 6 [1, 0, 0 :: llint])"
    "\<forall>r\<in>set (replicate 6 [1, 0, 0 :: llint]). 2 < length r" "2 < length [1, 0, 0 :: llint]"
    by simp_all
  have nz: "(4::int) \<noteq> 0" by simp
  show ?thesis
    using recursive_int_terminates [OF h, of 1 "replicate 16 1"] h(1,2,3) nz by blast
qed

text \<open>
  Claim C10 as worded, with only \<open>(s-1)(s-2)/2\<close> rows required: at \<open>s = 2\<close> that is no
  row at all, and with \<open>n = 1\<close> the engine reads \<open>b[0][0]\<close> outside the empty array.
\<close>

theorem recursive_int_rows_counterexample:
  "nat ((2 - 1) * (2 - 2) div 2) \<le> length ([] :: llint list list) \<and>
   recursive_int [] 2 1 [1, 0] 1 = Some (Inl OutOfRange)"
  by code_simp

section \<open>The position list\<close>

lemma schar_small: "len \<le> 128 \<Longrightarrow> nat (schar (int len - 1) + 1) = len"
  by (simp add: schar_def)

lemma low_bit: "unat (and (drop_bit i x) 1) = (if bit x i then 1 else 0)" for x :: ull
  by (simp add: and_one_eq bit_iff_odd_drop_bit mod_2_eq_odd)

lemma dec2bin_eq:
  "len \<le> 128 \<Longrightarrow> dec2bin x len = map (\<lambda>i. if bit x i then 1 else 0) (rev [0 ..< len])"
  by (simp add: dec2bin_def schar_small low_bit)

lemma length_dec2bin: "len \<le> 128 \<Longrightarrow> length (dec2bin x len) = len"
  by (simp add: dec2bin_eq)

lemma dec2bin_nth:
  "len \<le> 128 \<Longrightarrow> i < len \<Longrightarrow> dec2bin x len ! i = (if bit x (len - 1 - i) then 1 else 0)"
  by (simp add: dec2bin_eq rev_nth)

lemma find2_fold:
  "fold (\<lambda>i (pos, j). if 1 = dst ! i
            then (pos @ [(2 * i) mod 256, (2 * i + 1) mod 256], (j + 1) mod 256)
            else (pos, j)) [0 ..< k] ([], 0) =
   (concat (map (\<lambda>i. [(2 * i) mod 256, (2 * i + 1) mod 256]) (filter (\<lambda>i. dst ! i = 1) [0 ..< k])),
    length (filter (\<lambda>i. dst ! i = 1) [0 ..< k]) mod 256)"
  by (induction k) (auto simp: mod_Suc_eq)

lemma find2_eq:
  "find2 dst len =
     ((2 * (length (filter (\<lambda>i. dst ! i = 1) [0 ..< len]) mod 256)) mod 256,
      concat (map (\<lambda>i. [(2 * i) mod 256, (2 * i + 1) mod 256]) (filter (\<lambda>i. dst ! i = 1) [0 ..< len])))"
  unfolding find2_def find2_fold by simp

lemma ones_dec2bin:
  assumes "m \<le> 128"
  shows "filter (\<lambda>i. dec2bin x m ! i = 1) [0 ..< m] = msb_positions x m"
  unfolding msb_positions_def
  by (rule filter_cong) (auto simp: dec2bin_nth [OF assms])

lemma length_msb_positions: "length (msb_positions x m) = subset_size x m"
proof -
  have "msb_positions x m = filter (\<lambda>i. bit x (m - 1 - i)) [0 ..< m]"
    by (simp add: msb_positions_def)
  have "map (\<lambda>i. m - 1 - i) [0 ..< m] = rev [0 ..< m]"
    by (rule nth_equalityI) (auto simp: rev_nth)
  then have "filter (bit x) (rev [0 ..< m]) = map (\<lambda>i. m - 1 - i) (msb_positions x m)"
    by (simp only: msb_positions_def filter_map comp_def flip: \<open>map (\<lambda>i. m - 1 - i) [0 ..< m] = rev [0 ..< m]\<close>)
  then have "length (filter (bit x) (rev [0 ..< m])) = length (msb_positions x m)"
    by simp
  then show ?thesis
    by (simp add: subset_size_def flip: rev_filter)
qed

lemma subset_size_le: "subset_size x m \<le> 64"
proof -
  have "set (filter (bit x) [0 ..< m]) \<subseteq> {0 ..< 64}"
    by (auto dest: bit_imp_le_length)
  moreover have "distinct (filter (bit x) [0 ..< m])" by simp
  ultimately have "length (filter (bit x) [0 ..< m]) \<le> card {0 ..< 64::nat}"
    by (metis card_mono distinct_card finite_atLeastLessThan)
  then show ?thesis by (simp add: subset_size_def)
qed

lemma pos_small:
  assumes "m \<le> 128"
  shows "map (\<lambda>i. [(2 * i) mod 256, (2 * i + 1) mod 256]) (msb_positions x m) =
         map (\<lambda>i. [2 * i, 2 * i + 1]) (msb_positions x m)"
  using assms by (auto simp: msb_positions_def)

lemma find2_dec2bin:
  assumes "m \<le> 128"
  shows "find2 (dec2bin x m) m =
     (2 * subset_size x m, concat (map (\<lambda>i. [2 * i, 2 * i + 1]) (msb_positions x m)))"
  unfolding find2_eq ones_dec2bin [OF assms] pos_small [OF assms] length_msb_positions
  using subset_size_le [of x m] by simp


lemma doubled_length:
  "length (concat (map (\<lambda>i. [2 * i, Suc (2 * i)]) ps)) = 2 * length ps" for ps :: "nat list"
  by (induction ps) auto

lemma doubled_nth:
  "q < length ps \<Longrightarrow>
     concat (map (\<lambda>i. [2 * i, Suc (2 * i)]) ps) ! (2 * q) = 2 * (ps ! q) \<and>
     concat (map (\<lambda>i. [2 * i, Suc (2 * i)]) ps) ! Suc (2 * q) = Suc (2 * (ps ! q))"
  for ps :: "nat list"
proof (induction ps arbitrary: q)
  case Nil
  then show ?case by simp
next
  case (Cons p ps)
  then show ?case by (cases q) auto
qed

lemma doubled_set:
  "set (concat (map (\<lambda>i. [2 * i, Suc (2 * i)]) ps)) = (\<lambda>i. 2 * i) ` set ps \<union> (\<lambda>i. Suc (2 * i)) ` set ps"
  for ps :: "nat list"
  by (induction ps) auto

lemma doubled_sorted:
  "sorted_wrt (<) ps \<Longrightarrow> sorted_wrt (<) (concat (map (\<lambda>i. [2 * i, Suc (2 * i)]) ps))"
  for ps :: "nat list"
proof (induction ps)
  case Nil
  then show ?case by simp
next
  case (Cons p ps)
  then have "\<forall>y\<in>set (concat (map (\<lambda>i. [2 * i, Suc (2 * i)]) ps)). Suc (2 * p) < y"
    by (auto simp: doubled_set)
  with Cons show ?case by auto
qed

lemma msb_positions_sorted: "sorted_wrt (<) (msb_positions x m)"
  unfolding msb_positions_def by (rule sorted_wrt_filter) (simp add: sorted_wrt_upt)

lemma set_msb_positions: "set (msb_positions x m) = {i. i < m \<and> bit x (m - 1 - i)}"
  by (auto simp: msb_positions_def)

lemma subset_size_popcount:
  assumes "unat x < 2 ^ m"
  shows "subset_size x m = card {i. bit x i}"
proof -
  have "i < m" if "bit x i" for i
  proof -
    have "bit (unat x) i" using that by (simp add: bit_unsigned_iff)
    moreover have "take_bit m (unat x) = unat x"
      using assms by (simp add: take_bit_nat_eq_self)
    ultimately have "bit (take_bit m (unat x)) i" by simp
    then show ?thesis by (simp add: bit_take_bit_iff)
  qed
  then have "{i. bit x i} = set (filter (bit x) [0 ..< m])" by auto
  then have "card {i. bit x i} = card (set (filter (bit x) [0 ..< m]))" by (rule arg_cong)
  also have "\<dots> = length (filter (bit x) [0 ..< m])"
    by (rule distinct_card) simp
  finally show ?thesis
    by (simp only: subset_size_def)
qed

text \<open>
  Claim C6 (as amended).  For every \<open>m \<le> 64\<close> and every subset index \<open>x\<close>, the position
  list built by the worker has length \<open>2 |S(x)|\<close> (which is also the returned
  \<^verbatim>\<open>sum\<close>), its entries are strictly increasing, for every \<open>i < m\<close> such that bit
  \<open>m - 1 - i\<close> of \<open>x\<close> is set it contains \<open>2i\<close> immediately followed by \<open>2i + 1\<close>, and
  each even entry is immediately followed by its odd sibling.
\<close>

theorem position_list:
  assumes "m \<le> 64"
  shows "let pos = snd (find2 (dec2bin x m) m) in
     fst (find2 (dec2bin x m) m) = length pos \<and>
     length pos = 2 * subset_size x m \<and>
     sorted_wrt (<) pos \<and>
     (\<forall>i<m. bit x (m - 1 - i) \<longrightarrow>
        (\<exists>p. p + 1 < length pos \<and> pos ! p = 2 * i \<and> pos ! (p + 1) = 2 * i + 1)) \<and>
     (\<forall>p<length pos. even (pos ! p) \<longrightarrow> p + 1 < length pos \<and> pos ! (p + 1) = pos ! p + 1)"
proof -
  define ps where "ps = msb_positions x m"
  define pos where "pos = concat (map (\<lambda>i. [2 * i, Suc (2 * i)]) ps)"
  have m: "m \<le> 128" using assms by simp
  have f: "find2 (dec2bin x m) m = (2 * subset_size x m, pos)"
    by (simp add: find2_dec2bin [OF m] pos_def ps_def)
  have len: "length pos = 2 * subset_size x m"
    unfolding pos_def doubled_length ps_def length_msb_positions ..
  have srt: "sorted_wrt (<) pos"
    unfolding pos_def ps_def by (rule doubled_sorted [OF msb_positions_sorted])
  have mem: "\<exists>p. p + 1 < length pos \<and> pos ! p = 2 * i \<and> pos ! (p + 1) = 2 * i + 1"
    if "i < m" "bit x (m - 1 - i)" for i
  proof -
    from that have "i \<in> set ps" by (simp add: ps_def set_msb_positions)
    then obtain q where q: "q < length ps" "ps ! q = i"
      by (auto simp: in_set_conv_nth)
    then have "2 * q + 1 < length pos"
      by (simp add: pos_def doubled_length)
    moreover have "pos ! (2 * q) = 2 * i" "pos ! (2 * q + 1) = 2 * i + 1"
      using doubled_nth [OF q(1)] q(2) by (simp_all add: pos_def)
    ultimately show ?thesis by blast
  qed
  have sib: "p + 1 < length pos \<and> pos ! (p + 1) = pos ! p + 1"
    if "p < length pos" "even (pos ! p)" for p
  proof -
    have q: "p div 2 < length ps"
      using that(1) by (simp add: pos_def doubled_length)
    have "even p"
    proof (rule ccontr)
      assume "odd p"
      then have "p = 2 * (p div 2) + 1" by presburger
      then have "pos ! p = 2 * (ps ! (p div 2)) + 1"
        using doubled_nth [OF q] by (simp add: pos_def)
      with that(2) show False by simp
    qed
    then have p: "p = 2 * (p div 2)" by presburger
    have "pos ! p = 2 * (ps ! (p div 2))" "pos ! (p + 1) = 2 * (ps ! (p div 2)) + 1"
      using doubled_nth [OF q] p by (simp_all add: pos_def)
    moreover have "p + 1 < length pos"
      using q p by (simp add: pos_def doubled_length)
    ultimately show ?thesis by simp
  qed
  show ?thesis
    unfolding Let_def f using len srt mem sib by simp
qed


text \<open>The statement at \<open>m = 2\<close>, \<open>x = 1\<close>, \<open>i = 1\<close>.\<close>

theorem position_list_witness:
  "(2::nat) \<le> 64 \<and> (1::nat) < 2 \<and> bit (1::ull) (2 - 1 - 1) \<and>
   (\<exists>p. p + 1 < length (snd (find2 (dec2bin 1 2) 2)) \<and>
        snd (find2 (dec2bin 1 2) 2) ! p = 2 * 1 \<and>
        snd (find2 (dec2bin 1 2) 2) ! (p + 1) = 2 * 1 + 1)"
proof -
  have m: "(2::nat) \<le> 64" by simp
  have b: "bit (1::ull) (2 - 1 - 1)" by simp
  have "\<forall>i<2. bit (1::ull) (2 - 1 - i) \<longrightarrow>
      (\<exists>p. p + 1 < length (snd (find2 (dec2bin 1 2) 2)) \<and>
           snd (find2 (dec2bin 1 2) 2) ! p = 2 * i \<and>
           snd (find2 (dec2bin 1 2) 2) ! (p + 1) = 2 * i + 1)"
    using position_list [OF m, of 1] unfolding Let_def by blast
  with b have "\<exists>p. p + 1 < length (snd (find2 (dec2bin 1 2) 2)) \<and>
        snd (find2 (dec2bin 1 2) 2) ! p = 2 * 1 \<and>
        snd (find2 (dec2bin 1 2) 2) ! (p + 1) = 2 * 1 + 1"
    by (metis one_less_numeral_iff semiring_norm(76))
  with m b show ?thesis by simp
qed

text \<open>
  Claim C6 as worded, with bit \<open>i\<close> of \<open>x\<close> selecting \<open>2i\<close> and \<open>2i + 1\<close>: for \<open>m = 2\<close>
  and \<open>x = 1\<close> bit 0 is set, but the position list is \<open>[2, 3]\<close> and does not contain 0.
\<close>

theorem position_list_lsb_counterexample:
  "unat (1::ull) < 2 ^ 2 \<and> bit (1::ull) 0 \<and>
   snd (find2 (dec2bin 1 2) 2) = [2, 3] \<and> 2 * 0 \<notin> set (snd (find2 (dec2bin 1 2) 2))"
  by code_simp

section \<open>The sign of a summand\<close>

text \<open>
  Claim C3 (as amended).  For every subset index \<open>x < 2 ^ m\<close> (\<open>m = n div 2 < 64\<close>), in
  the plain worker and in the loop worker alike, the summand of \<open>x\<close> is the extracted
  coefficient \<^verbatim>\<open>comb[1 - cntindex][n / 2]\<close>, taken with positive sign exactly when the
  number of set bits of \<open>x\<close> has the parity of \<open>m\<close>, and negated otherwise.
\<close>

theorem summand_sign:
  assumes "n div 2 < 64" "unat x < 2 ^ (n div 2)"
  shows "extracted pt mat n x =
           comb (final_state pt mat n x) ! (1 - cntindex (final_state pt mat n x)) ! (n div 2) \<and>
         summand pt mat n x =
           (if card {i. bit x i} mod 2 = (n div 2) mod 2
            then extracted pt mat n x else - extracted pt mat n x) \<and>
         summand_loops pt mat C D n x =
           (if card {i. bit x i} mod 2 = (n div 2) mod 2
            then comb (final_state_loops pt mat C D n x)
                   ! (1 - cntindex (final_state_loops pt mat C D n x)) ! (n div 2)
            else - (comb (final_state_loops pt mat C D n x)
                   ! (1 - cntindex (final_state_loops pt mat C D n x)) ! (n div 2)))"
proof -
  have m: "(n div 2) mod 256 = n div 2" "n div 2 \<le> 128"
    using assms(1) by simp_all
  have "fst (find2 (dec2bin x (n div 2)) (n div 2)) = 2 * subset_size x (n div 2)"
    by (simp add: find2_dec2bin [OF m(2)])
  then show ?thesis
    by (simp add: summand_def summand_loops_def extracted_def Let_def m(1)
        subset_size_popcount [OF assms(2)])
qed

text \<open>
  The statement at \<open>x = 1\<close>, for the plain worker at the matrix \<open>[[0, 1], [1, 0]]\<close> and
  for the loop worker at the all-ones matrix of order 2 with its diagonal vectors.
\<close>

theorem summand_sign_witness:
  "(2::nat) div 2 < 64 \<and> unat (1::ull) < 2 ^ (2 div 2) \<and>
   summand (powtrace_real diagonal_eigenvalues) [0, 1, 1, 0] 2 1 =
     extracted (powtrace_real diagonal_eigenvalues) [0, 1, 1, 0] 2 1 \<and>
   summand_loops (powtrace_real diagonal_eigenvalues) [1, 1, 1, 1] [1, 1] [1, 1] 2 1 =
     comb (final_state_loops (powtrace_real diagonal_eigenvalues) [1, 1, 1, 1] [1, 1] [1, 1] 2 1)
       ! (1 - cntindex (final_state_loops (powtrace_real diagonal_eigenvalues)
                          [1, 1, 1, 1] [1, 1] [1, 1] 2 1)) ! (2 div 2)"
proof -
  have h: "(2::nat) div 2 < 64" "unat (1::ull) < 2 ^ (2 div 2)" by simp_all
  have c: "card {i. bit (1::ull) i} = 1" by (simp add: bit_1_iff)
  have p: "summand (powtrace_real diagonal_eigenvalues) [0, 1, 1, 0] 2 1 =
      extracted (powtrace_real diagonal_eigenvalues) [0, 1, 1, 0] 2 1"
    using summand_sign [OF h, of "powtrace_real diagonal_eigenvalues" "[0, 1, 1, 0]"]
    by (simp add: c)
  have l: "summand_loops (powtrace_real diagonal_eigenvalues) [1, 1, 1, 1] [1, 1] [1, 1] 2 1 =
     comb (final_state_loops (powtrace_real diagonal_eigenvalues) [1, 1, 1, 1] [1, 1] [1, 1] 2 1)
       ! (1 - cntindex (final_state_loops (powtrace_real diagonal_eigenvalues)
                          [1, 1, 1, 1] [1, 1] [1, 1] 2 1)) ! (2 div 2)"
    using summand_sign [OF h, of "powtrace_real diagonal_eigenvalues" "[1, 1, 1, 1]" "[1, 1]" "[1, 1]"]
    by (simp add: c)
  from h p l show ?thesis by blast
qed

text \<open>
  Claim C3 as worded, with the parity of \<open>|S(x)| / 2\<close>: at \<open>x = 1\<close> and \<open>m = 1\<close> one bit
  is set, \<open>1 div 2 = 0\<close> has not the parity of \<open>m\<close>, so the summand would be the negated
  coefficient.  The plain worker, at the matrix \<open>[[0, 1], [1, 0]]\<close>, returns the
  coefficient \<open>1\<close> unnegated; the loop worker, at the all-ones matrix of order 2,
  returns the coefficient \<open>2\<close> unnegated.
\<close>

theorem summand_half_parity_counterexample:
  "summand (powtrace_real diagonal_eigenvalues) [0, 1, 1, 0] 2 1 = 1 \<and>
   extracted (powtrace_real diagonal_eigenvalues) [0, 1, 1, 0] 2 1 = 1 \<and>
   subset_size 1 (2 div 2) = 1 \<and>
   (subset_size 1 (2 div 2) div 2) mod 2 \<noteq> (2 div 2) mod 2 \<and>
   summand_loops (powtrace_real diagonal_eigenvalues) [1, 1, 1, 1] [1, 1] [1, 1] 2 1 = 2 \<and>
   comb (final_state_loops (powtrace_real diagonal_eigenvalues) [1, 1, 1, 1] [1, 1] [1, 1] 2 1)
     ! (1 - cntindex (final_state_loops (powtrace_real diagonal_eigenvalues)
                        [1, 1, 1, 1] [1, 1] [1, 1] 2 1)) ! (2 div 2) = 2"
  by code_simp

section \<open>Power traces are power sums of the eigenvalues\<close>

lemma fold_update_each:
  "k \<le> length p \<Longrightarrow>
     fold (\<lambda>j p. p[j := g j (p ! j)]) [0 ..< k] p = map (\<lambda>j. g j (p ! j)) [0 ..< k] @ drop k p"
proof (induction k)
  case 0
  then show ?case by simp
next
  case (Suc k)
  then have k: "k < length p" by simp
  have d: "drop k p = p ! k # drop (Suc k) p"
    using k by (simp add: Cons_nth_drop_Suc)
  have "fold (\<lambda>j p. p[j := g j (p ! j)]) [0 ..< Suc k] p =
      (map (\<lambda>j. g j (p ! j)) [0 ..< k] @ drop k p)[k := g k ((map (\<lambda>j. g j (p ! j)) [0 ..< k] @ drop k p) ! k)]"
    using Suc by simp
  also have "\<dots> = map (\<lambda>j. g j (p ! j)) [0 ..< k] @ g k (p ! k) # drop (Suc k) p"
    unfolding d by (simp add: list_update_append nth_append)
  finally show ?case by simp
qed

lemma fold_update_all:
  "length p = n \<Longrightarrow> fold (\<lambda>j p. p[j := g j (p ! j)]) [0 ..< n] p = map (\<lambda>j. g j (p ! j)) [0 ..< n]"
  using fold_update_each [of n p g] by simp

lemma fold_add: "fold (\<lambda>j s. s + f j) [0 ..< n] s0 = s0 + (\<Sum>j<n. f j)"
  for f :: "nat \<Rightarrow> 'a::comm_monoid_add"
  by (induction n) (simp_all add: add.assoc)

lemma init_pvals_eq: "init_pvals vals n = map (\<lambda>j. vals ! j) [0 ..< n]"
  unfolding init_pvals_def using fold_update_all [of "replicate n 0" n "\<lambda>j _. vals ! j"] by simp

lemma powtrace_round_eq:
  assumes "length pvals = n"
  shows "powtrace_round store vals n i (traces, pvals) =
     (traces[i := store (\<Sum>j<n. pvals ! j)], map (\<lambda>j. pvals ! j * vals ! j) [0 ..< n])"
  unfolding powtrace_round_def
  using fold_update_all [OF assms, of "\<lambda>j v. v * vals ! j"] by (simp add: fold_add)

lemma powtrace_rounds:
  assumes "k \<le> l"
  shows "fold (powtrace_round store vals n) [0 ..< k] (replicate l 0, map (\<lambda>j. vals ! j) [0 ..< n]) =
     (map (\<lambda>t. store (\<Sum>j<n. vals ! j ^ (t + 1))) [0 ..< k] @ replicate (l - k) 0,
      map (\<lambda>j. vals ! j ^ (k + 1)) [0 ..< n])"
  using assms
proof (induction k)
  case 0
  then show ?case by simp
next
  case (Suc k)
  define tr where "tr = map (\<lambda>t. store (\<Sum>j<n. vals ! j ^ (t + 1))) [0 ..< k]"
  define pv where "pv = map (\<lambda>j. vals ! j ^ (k + 1)) [0 ..< n]"
  have IH: "fold (powtrace_round store vals n) [0 ..< k] (replicate l 0, map (\<lambda>j. vals ! j) [0 ..< n]) =
     (tr @ replicate (l - k) 0, pv)"
    using Suc by (simp add: tr_def pv_def)
  have rep: "replicate (l - k) (0::'a) = 0 # replicate (l - Suc k) 0"
    using Suc.prems by (cases "l - k") (simp_all add: Suc_diff_Suc)
  have lt: "length tr = k" by (simp add: tr_def)
  have "powtrace_round store vals n k (tr @ replicate (l - k) 0, pv) =
     ((tr @ replicate (l - k) 0)[k := store (\<Sum>j<n. pv ! j)], map (\<lambda>j. pv ! j * vals ! j) [0 ..< n])"
    by (rule powtrace_round_eq) (simp add: pv_def)
  also have "(tr @ replicate (l - k) 0)[k := store (\<Sum>j<n. pv ! j)] =
      tr @ store (\<Sum>j<n. pv ! j) # replicate (l - Suc k) 0"
    unfolding rep using lt by (simp add: list_update_append)
  also have "(\<Sum>j<n. pv ! j) = (\<Sum>j<n. vals ! j ^ (k + 1))"
    by (rule sum.cong) (simp_all add: pv_def)
  also have "map (\<lambda>j. pv ! j * vals ! j) [0 ..< n] = map (\<lambda>j. vals ! j ^ (Suc k + 1)) [0 ..< n]"
    by (simp add: pv_def)
  finally have step: "powtrace_round store vals n k (tr @ replicate (l - k) 0, pv) =
     (tr @ store (\<Sum>j<n. vals ! j ^ (k + 1)) # replicate (l - Suc k) 0,
      map (\<lambda>j. vals ! j ^ (Suc k + 1)) [0 ..< n])" .
  have "fold (powtrace_round store vals n) [0 ..< Suc k] (replicate l 0, map (\<lambda>j. vals ! j) [0 ..< n]) =
      powtrace_round store vals n k
        (fold (powtrace_round store vals n) [0 ..< k] (replicate l 0, map (\<lambda>j. vals ! j) [0 ..< n]))"
    by simp
  also have "\<dots> = (tr @ store (\<Sum>j<n. vals ! j ^ (k + 1)) # replicate (l - Suc k) 0,
      map (\<lambda>j. vals ! j ^ (Suc k + 1)) [0 ..< n])"
    unfolding IH step ..
  finally show ?case
    by (simp add: tr_def)
qed

lemma powtrace_loop:
  "fst (fold (powtrace_round store vals n) [0 ..< l] (replicate l 0, init_pvals vals n)) =
     map (\<lambda>t. store (\<Sum>j<n. vals ! j ^ (t + 1))) [0 ..< l]"
  by (simp add: init_pvals_eq powtrace_rounds)

lemma nth_shifted:
  "1 \<le> k \<Longrightarrow> k \<le> l \<Longrightarrow> map (\<lambda>t. F (t + 1)) [0 ..< l] ! (k - 1) = F k"
  by (cases k) simp_all

text \<open>
  Claim C4.  When the solver returns \<open>n\<close> eigenvalues \<open>\<lambda>\<close>, the power-trace routine
  returns a vector of length \<open>l\<close> with \<open>traces[k-1] = \<Sum>\<^sub>j \<lambda>\<^sub>j ^ k\<close> for \<open>k = 1, \<dots>, l\<close>;
  for \<open>n = 0\<close> it is all zeros, whatever the solver is; the real overload returns the
  real parts of the power sums.
\<close>

theorem powtrace_power_sums:
  assumes "length (eigenvalues z n) = n" "length (eigenvalues_real zr n) = n"
  shows "length (powtrace eigenvalues z n l) = l \<and>
         (\<forall>k. 1 \<le> k \<and> k \<le> l \<longrightarrow>
            powtrace eigenvalues z n l ! (k - 1) = (\<Sum>j<n. eigenvalues z n ! j ^ k)) \<and>
         powtrace eigenvalues z 0 l = replicate l 0 \<and>
         length (powtrace_real eigenvalues_real zr n l) = l \<and>
         (\<forall>k. 1 \<le> k \<and> k \<le> l \<longrightarrow>
            powtrace_real eigenvalues_real zr n l ! (k - 1) = Re (\<Sum>j<n. eigenvalues_real zr n ! j ^ k)) \<and>
         powtrace_real eigenvalues_real zr 0 l = replicate l 0"
proof -
  have zero: "map (\<lambda>t. store (\<Sum>j<0. vals ! j ^ (t + 1))) [0 ..< l] = replicate l (store 0)"
    for store :: "complex \<Rightarrow> 'b" and vals
    by (simp add: map_replicate_const)
  have c: "powtrace eigenvalues z n l = map (\<lambda>t. \<Sum>j<n. eigenvalues z n ! j ^ (t + 1)) [0 ..< l]"
    by (cases "n = 0") (simp_all add: powtrace_def powtrace_loop Let_def)
  have r: "powtrace_real eigenvalues_real zr n l =
      map (\<lambda>t. Re (\<Sum>j<n. eigenvalues_real zr n ! j ^ (t + 1))) [0 ..< l]"
    by (cases "n = 0") (simp_all add: powtrace_real_def powtrace_loop Let_def)
  have c0: "powtrace eigenvalues z 0 l = replicate l 0"
    using zero [of "\<lambda>c. c"] by (simp add: powtrace_def powtrace_loop)
  have r0: "powtrace_real eigenvalues_real zr 0 l = replicate l 0"
    using zero [of Re] by (simp add: powtrace_real_def powtrace_loop)
  have cn: "powtrace eigenvalues z n l ! (k - 1) = (\<Sum>j<n. eigenvalues z n ! j ^ k)"
    if "1 \<le> k \<and> k \<le> l" for k
    unfolding c using that nth_shifted [of k l "\<lambda>k. \<Sum>j<n. eigenvalues z n ! j ^ k"] by blast
  have rn: "powtrace_real eigenvalues_real zr n l ! (k - 1) = Re (\<Sum>j<n. eigenvalues_real zr n ! j ^ k)"
    if "1 \<le> k \<and> k \<le> l" for k
    unfolding r using that nth_shifted [of k l "\<lambda>k. Re (\<Sum>j<n. eigenvalues_real zr n ! j ^ k)"] by blast
  have "length (powtrace eigenvalues z n l) = l" "length (powtrace_real eigenvalues_real zr n l) = l"
    by (simp_all add: c r)
  with cn rn c0 r0 show ?thesis by blast
qed

text \<open>The statement at the identity matrix of order 2, with \<open>l = 2\<close>.\<close>

theorem powtrace_power_sums_witness:
  "powtrace (\<lambda>z n. map (\<lambda>i. z ! (i * n + i)) [0 ..< n]) [1, 0, 0, 1] 2 2 = [2, 2] \<and>
   powtrace_real diagonal_eigenvalues [1, 0, 0, 1] 2 2 = [2, 2]"
proof -
  define ev where "ev = (\<lambda>(z::complex list) n. map (\<lambda>i. z ! (i * n + i)) [0 ..< n])"
  have l: "length (ev [1, 0, 0, 1] 2) = 2" "length (diagonal_eigenvalues [1, 0, 0, 1] 2) = 2"
    by (simp_all add: ev_def diagonal_eigenvalues_def)
  have e: "ev [1, 0, 0, 1] 2 = [1, 1]" "diagonal_eigenvalues [1, 0, 0, 1] 2 = [1, 1]"
    by (simp_all add: ev_def diagonal_eigenvalues_def upt_rec numeral_2_eq_2)
  note t = powtrace_power_sums [of ev "[1, 0, 0, 1]" 2 diagonal_eigenvalues "[1, 0, 0, 1]" 2, OF l]
  from t have la: "length (powtrace ev [1, 0, 0, 1] 2 2) = 2"
    and A: "\<forall>k. 1 \<le> k \<and> k \<le> 2 \<longrightarrow>
            powtrace ev [1, 0, 0, 1] 2 2 ! (k - 1) = (\<Sum>j<2. ev [1, 0, 0, 1] 2 ! j ^ k)"
    and lb: "length (powtrace_real diagonal_eigenvalues [1, 0, 0, 1] 2 2) = 2"
    and B: "\<forall>k. 1 \<le> k \<and> k \<le> 2 \<longrightarrow>
            powtrace_real diagonal_eigenvalues [1, 0, 0, 1] 2 2 ! (k - 1) =
              Re (\<Sum>j<2. diagonal_eigenvalues [1, 0, 0, 1] 2 ! j ^ k)"
    by blast+
  have a: "powtrace ev [1, 0, 0, 1] 2 2 ! (1 - 1) = (\<Sum>j<2. ev [1, 0, 0, 1] 2 ! j ^ 1)"
    "powtrace ev [1, 0, 0, 1] 2 2 ! (2 - 1) = (\<Sum>j<2. ev [1, 0, 0, 1] 2 ! j ^ 2)"
    by (rule A [rule_format], simp)+
  have b: "powtrace_real diagonal_eigenvalues [1, 0, 0, 1] 2 2 ! (1 - 1) = Re (\<Sum>j<2. diagonal_eigenvalues [1, 0, 0, 1] 2 ! j ^ 1)"
    "powtrace_real diagonal_eigenvalues [1, 0, 0, 1] 2 2 ! (2 - 1) = Re (\<Sum>j<2. diagonal_eigenvalues [1, 0, 0, 1] 2 ! j ^ 2)"
    by (rule B [rule_format], simp)+
  have s1: "(\<Sum>j<2. [1, 1 :: complex] ! j ^ 1) = 2" "(\<Sum>j<2. [1, 1 :: complex] ! j ^ 2) = 2"
    by (simp_all add: lessThan_Suc numeral_2_eq_2)
  have a': "powtrace ev [1, 0, 0, 1] 2 2 ! 0 = 2" "powtrace ev [1, 0, 0, 1] 2 2 ! 1 = 2"
    using a unfolding e s1 by simp_all
  have b': "powtrace_real diagonal_eigenvalues [1, 0, 0, 1] 2 2 ! 0 = 2"
    "powtrace_real diagonal_eigenvalues [1, 0, 0, 1] 2 2 ! 1 = 2"
    using b unfolding e s1 by simp_all
  have two: "xs = [xs ! 0, xs ! 1]" if "length xs = 2" for xs :: "'b list"
    using that by (cases xs; cases "tl xs") auto
  have "powtrace ev [1, 0, 0, 1] 2 2 = [2, 2]"
    using two [OF la] a' by simp
  moreover have "powtrace_real diagonal_eigenvalues [1, 0, 0, 1] 2 2 = [2, 2]"
    using two [OF lb] b' by simp
  ultimately show ?thesis by (simp add: ev_def)
qed

section \<open>The generating-function fold\<close>

lemma copy_loop:
  assumes "rw < length c" "rw \<noteq> ro" "K \<le> length (c ! rw)" "K \<le> length (c ! ro)"
  shows "fold (\<lambda>j c. c[rw := (c ! rw)[j := c ! ro ! j]]) [0 ..< K] c =
         c[rw := take K (c ! ro) @ drop K (c ! rw)]"
  using assms(3,4)
proof (induction K)
  case 0
  then show ?case by simp
next
  case (Suc K)
  define c' where "c' = c[rw := take K (c ! ro) @ drop K (c ! rw)]"
  have IH: "fold (\<lambda>j c. c[rw := (c ! rw)[j := c ! ro ! j]]) [0 ..< K] c = c'"
    using Suc by (simp add: c'_def)
  have r': "c' ! rw = take K (c ! ro) @ drop K (c ! rw)" "c' ! ro = c ! ro"
    using assms(1,2) by (simp_all add: c'_def)
  have "fold (\<lambda>j c. c[rw := (c ! rw)[j := c ! ro ! j]]) [0 ..< Suc K] c =
      c'[rw := (c' ! rw)[K := c' ! ro ! K]]"
    by (simp add: IH)
  also have "\<dots> = c[rw := (take K (c ! ro) @ drop K (c ! rw))[K := c ! ro ! K]]"
    unfolding r' by (simp add: c'_def)
  also have "(take K (c ! ro) @ drop K (c ! rw))[K := c ! ro ! K] =
      take (Suc K) (c ! ro) @ drop (Suc K) (c ! rw)"
    by (rule take_drop_update) (use Suc.prems in simp_all)
  finally show ?case .
qed

lemma shift_loop:
  assumes "rw < length c" "rw \<noteq> ro" "length (c ! rw) = N" "s + 1 \<le> K" "K \<le> N + 1"
  shows "fold (\<lambda>k c. c[rw := (c ! rw)[k - 1 := c ! rw ! (k - 1) + c ! ro ! (k - s - 1) * pf]])
           [s + 1 ..< K] c =
         c[rw := map (\<lambda>t. if s \<le> t \<and> t + 1 < K then c ! rw ! t + c ! ro ! (t - s) * pf
                           else c ! rw ! t) [0 ..< N]]"
proof -
  define G where "G = (\<lambda>k (c :: 'a list list).
      c[rw := (c ! rw)[k - 1 := c ! rw ! (k - 1) + c ! ro ! (k - s - 1) * pf]])"
  define f where "f = (\<lambda>K t. if s \<le> t \<and> t + 1 < K then c ! rw ! t + c ! ro ! (t - s) * pf
                           else c ! rw ! t)"
  have "fold G [s + 1 ..< K] c = c[rw := map (f K) [0 ..< N]]"
    using assms(4,5)
  proof (induction K rule: dec_induct)
    case base
    have "map (f (s + 1)) [0 ..< N] = map (\<lambda>t. c ! rw ! t) [0 ..< N]"
      by (rule map_cong) (auto simp: f_def)
    also have "\<dots> = c ! rw"
      using assms(3) map_nth [of "c ! rw"] by simp
    finally show ?case by simp
  next
    case (step K)
    define c' where "c' = c[rw := map (f K) [0 ..< N]]"
    have IH: "fold G [s + 1 ..< K] c = c'"
      using step by (simp add: c'_def)
    have K: "K - 1 < N" "s \<le> K - 1" "0 < K" using step by simp_all
    have r': "c' ! rw = map (f K) [0 ..< N]" "c' ! ro = c ! ro"
      using assms(1,2) by (simp_all add: c'_def)
    have upt: "[s + 1 ..< Suc K] = [s + 1 ..< K] @ [K]"
      using step(1) by simp
    have "fold G [s + 1 ..< Suc K] c = G K c'"
      unfolding upt using IH by simp
    also have "\<dots> = c'[rw := (c' ! rw)[K - 1 := c' ! rw ! (K - 1) + c' ! ro ! (K - s - 1) * pf]]"
      by (simp add: G_def)
    also have "\<dots> = c[rw := (map (f K) [0 ..< N])[K - 1 := f K (K - 1) + c ! ro ! (K - s - 1) * pf]]"
      unfolding r' using K by (simp add: c'_def)
    also have "(map (f K) [0 ..< N])[K - 1 := f K (K - 1) + c ! ro ! (K - s - 1) * pf] =
        map (f (Suc K)) [0 ..< N]"
      using K by (intro nth_equalityI) (auto simp: f_def nth_list_update)
    finally show ?case .
  qed
  then show ?thesis by (simp add: G_def f_def)
qed


lemma shift_loop_full:
  assumes "rw < length c" "rw \<noteq> ro" "length (c ! rw) = M + 1"
  shows "fold (\<lambda>k c. c[rw := (c ! rw)[k - 1 := c ! rw ! (k - 1) + c ! ro ! (k - s - 1) * pf]])
           [s + 1 ..< M + 2] c =
         c[rw := map (\<lambda>t. if s \<le> t then c ! rw ! t + c ! ro ! (t - s) * pf else c ! rw ! t)
                   [0 ..< M + 1]]"
proof (cases "s + 1 \<le> M + 2")
  case True
  have m2: "M + 2 = (M + 1) + 1" by simp
  have "map (\<lambda>t. if s \<le> t \<and> t + 1 < (M + 1) + 1 then c ! rw ! t + c ! ro ! (t - s) * pf
                           else c ! rw ! t) [0 ..< M + 1] =
        map (\<lambda>t. if s \<le> t then c ! rw ! t + c ! ro ! (t - s) * pf else c ! rw ! t) [0 ..< M + 1]"
    by (rule map_cong) auto
  then show ?thesis
    unfolding m2 by (simp only: flip: \<open>map (\<lambda>t. if s \<le> t \<and> t + 1 < (M + 1) + 1 then c ! rw ! t + c ! ro ! (t - s) * pf
                           else c ! rw ! t) [0 ..< M + 1] =
        map (\<lambda>t. if s \<le> t then c ! rw ! t + c ! ro ! (t - s) * pf else c ! rw ! t) [0 ..< M + 1]\<close>)
      (rule shift_loop [OF assms], use True in simp_all)
next
  case False
  then have e: "[s + 1 ..< M + 2] = []" by simp
  have "map (\<lambda>t. if s \<le> t then c ! rw ! t + c ! ro ! (t - s) * pf else c ! rw ! t) [0 ..< M + 1] =
        map (\<lambda>t. c ! rw ! t) [0 ..< M + 1]"
    using False by (intro map_cong) auto
  also have "\<dots> = c ! rw"
    using assms(3) map_nth [of "c ! rw"] by simp
  finally show ?thesis
    unfolding e by simp
qed

lemma powfactor_step:
  "(factor ^ J / fact J) * factor / of_nat (Suc J) = factor ^ Suc J / fact (Suc J)"
  for factor :: "'a::field_char_0"
  by (simp add: field_simps)

lemma multiples_loop:
  fixes factor :: "'a::field_char_0"
  assumes "rw < length c" "rw \<noteq> ro" "length (c ! rw) = M + 1"
  shows "fold (\<lambda>j (c, powfactor).
                let pf = powfactor * factor / of_nat j
                in (fold (\<lambda>k c. c[rw := (c ! rw)[k - 1 :=
                             c ! rw ! (k - 1) + c ! ro ! (k - i * j - 1) * pf]])
                      [i * j + 1 ..< M + 2] c,
                    pf))
           [1 ..< J + 1] (c, 1) =
         (c[rw := map (\<lambda>t. c ! rw ! t +
                    (\<Sum>j = 1..J. if i * j \<le> t then c ! ro ! (t - i * j) * (factor ^ j / fact j) else 0))
                 [0 ..< M + 1]],
          factor ^ J / fact J)"
proof -
  define H where "H = (\<lambda>j (c :: 'a list list, powfactor).
                let pf = powfactor * factor / of_nat j
                in (fold (\<lambda>k c. c[rw := (c ! rw)[k - 1 :=
                             c ! rw ! (k - 1) + c ! ro ! (k - i * j - 1) * pf]])
                      [i * j + 1 ..< M + 2] c,
                    pf))"
  define F where "F = (\<lambda>J t. c ! rw ! t +
        (\<Sum>j = 1..J. if i * j \<le> t then c ! ro ! (t - i * j) * (factor ^ j / fact j) else 0))"
  define row where "row = (\<lambda>J. map (F J) [0 ..< M + 1])"
  have "fold H [1 ..< J + 1] (c, 1) = (c[rw := row J], factor ^ J / fact J)"
  proof (induction J)
    case 0
    have "row 0 = map (\<lambda>t. c ! rw ! t) [0 ..< M + 1]"
      unfolding row_def by (rule map_cong) (simp_all add: F_def)
    also have "\<dots> = c ! rw"
      using assms(3) map_nth [of "c ! rw"] by simp
    finally show ?case by simp
  next
    case (Suc J)
    define c' where "c' = c[rw := row J]"
    have IH: "fold H [1 ..< J + 1] (c, 1) = (c', factor ^ J / fact J)"
      using Suc by (simp add: c'_def)
    have r': "c' ! rw = row J" "c' ! ro = c ! ro" "rw < length c'" "length (c' ! rw) = M + 1"
      using assms(1,2) by (simp_all add: c'_def row_def)
    have upt: "[1 ..< Suc J + 1] = [1 ..< J + 1] @ [Suc J]" by simp
    have "fold H [1 ..< Suc J + 1] (c, 1) = H (Suc J) (c', factor ^ J / fact J)"
      unfolding upt fold_append comp_def IH by simp
    also have "\<dots> = (fold (\<lambda>k c. c[rw := (c ! rw)[k - 1 :=
                             c ! rw ! (k - 1) + c ! ro ! (k - i * Suc J - 1) * (factor ^ Suc J / fact (Suc J))]])
                      [i * Suc J + 1 ..< M + 2] c', factor ^ Suc J / fact (Suc J))"
      unfolding H_def by (simp only: Let_def prod.case powfactor_step)
    also have "fold (\<lambda>k c. c[rw := (c ! rw)[k - 1 :=
                             c ! rw ! (k - 1) + c ! ro ! (k - i * Suc J - 1) * (factor ^ Suc J / fact (Suc J))]])
                      [i * Suc J + 1 ..< M + 2] c' =
        c'[rw := map (\<lambda>t. if i * Suc J \<le> t
                 then c' ! rw ! t + c' ! ro ! (t - i * Suc J) * (factor ^ Suc J / fact (Suc J))
                 else c' ! rw ! t) [0 ..< M + 1]]"
      by (rule shift_loop_full [OF r'(3) assms(2) r'(4)])
    also have "map (\<lambda>t. if i * Suc J \<le> t
                 then c' ! rw ! t + c' ! ro ! (t - i * Suc J) * (factor ^ Suc J / fact (Suc J))
                 else c' ! rw ! t) [0 ..< M + 1] = row (Suc J)"
    proof -
      have rowJ: "row J ! t = F J t" if "t < M + 1" for t
        using that by (simp add: row_def del: upt_Suc)
      have pt: "(if i * Suc J \<le> t
                 then row J ! t + c ! ro ! (t - i * Suc J) * (factor ^ Suc J / fact (Suc J))
                 else row J ! t) = F (Suc J) t" if "t < M + 1" for t
        using that by (simp add: rowJ F_def)
      have rS: "row (Suc J) = map (F (Suc J)) [0 ..< M + 1]"
        by (simp only: row_def)
      show ?thesis
        unfolding r' rS
      proof (rule map_cong [OF refl])
        fix t assume "t \<in> set [0 ..< M + 1]"
        then have "t < M + 1" by auto
        then show "(if i * Suc J \<le> t
                 then row J ! t + c ! ro ! (t - i * Suc J) * (factor ^ Suc J / fact (Suc J))
                 else row J ! t) = F (Suc J) t"
          by (rule pt)
      qed
    qed
    also have "c'[rw := row (Suc J)] = c[rw := row (Suc J)]"
      by (simp add: c'_def)
    finally show ?case .
  qed
  then show ?thesis
    unfolding H_def row_def F_def .
qed

lemma exp_series_coeff:
  fixes p :: "nat \<Rightarrow> 'a::field_char_0"
  assumes "0 < i" "t \<le> M"
  shows "series_mult p (exp_coeff a i) t =
     p t + (\<Sum>j = 1..M div i. if i * j \<le> t then p (t - i * j) * (a ^ j / fact j) else 0)"
proof -
  have le_iff: "i * j \<le> t \<longleftrightarrow> j \<le> t div i" for j
    using assms(1) by (simp add: less_eq_div_iff_mult_less_eq mult.commute)
  have A: "series_mult p (exp_coeff a i) t =
      (\<Sum>u \<in> {u. u \<le> t \<and> i dvd (t - u)}. p u * (a ^ ((t - u) div i) / fact ((t - u) div i)))"
    unfolding series_mult_def
    by (rule sum.mono_neutral_cong_right) (auto simp: exp_coeff_def)
  have B: "(\<Sum>u \<in> {u. u \<le> t \<and> i dvd (t - u)}. p u * (a ^ ((t - u) div i) / fact ((t - u) div i))) =
      (\<Sum>j \<le> t div i. p (t - i * j) * (a ^ j / fact j))"
  proof (rule sum.reindex_bij_witness [of _ "\<lambda>j. t - i * j" "\<lambda>u. (t - u) div i"])
    fix u assume "u \<in> {u. u \<le> t \<and> i dvd (t - u)}"
    then have u: "u \<le> t" "i dvd (t - u)" by simp_all
    then have m: "i * ((t - u) div i) = t - u" by simp
    show "t - i * ((t - u) div i) = u" unfolding m using u(1) by simp
    show "(t - u) div i \<in> {..t div i}" by (simp add: div_le_mono)
    show "p (t - i * ((t - u) div i)) * (a ^ ((t - u) div i) / fact ((t - u) div i)) =
          p u * (a ^ ((t - u) div i) / fact ((t - u) div i))"
      unfolding m using u(1) by simp
  next
    fix j assume "j \<in> {..t div i}"
    then have j: "i * j \<le> t" by (simp add: le_iff)
    then have m: "t - (t - i * j) = i * j" by simp
    show "(t - (t - i * j)) div i = j" unfolding m using assms(1) by simp
    show "t - i * j \<in> {u. u \<le> t \<and> i dvd (t - u)}" unfolding mem_Collect_eq m by simp
  qed
  have C: "(\<Sum>j = 0..M div i. if i * j \<le> t then p (t - i * j) * (a ^ j / fact j) else 0) =
      (\<Sum>j \<le> t div i. p (t - i * j) * (a ^ j / fact j))"
  proof (rule sum.mono_neutral_cong_right)
    have "t div i \<le> M div i" using assms(2) by (rule div_le_mono)
    then show "{..t div i} \<subseteq> {0..M div i}" by auto
  qed (auto simp: le_iff)
  have "(\<Sum>j = 0..M div i. if i * j \<le> t then p (t - i * j) * (a ^ j / fact j) else 0) =
      p t + (\<Sum>j = Suc 0..M div i. if i * j \<le> t then p (t - i * j) * (a ^ j / fact j) else 0)"
    by (subst sum.atLeast_Suc_atMost) simp_all
  then show ?thesis
    using A B C by simp
qed

lemma series_step_rows:
  fixes factor :: "'a::field_char_0"
  assumes "cnt st = 1 \<or> cnt st = - 1" "length (comb st) = 2"
    and "\<forall>r\<in>set (comb st). length r = n div 2 + 1" "0 < i"
  shows "series_step n i factor st =
     \<lparr>comb = (comb st)[1 - nat ((1 - cnt st) div 2) :=
         map (series_mult (nth (comb st ! nat ((1 - cnt st) div 2))) (exp_coeff factor i))
           [0 ..< n div 2 + 1]],
      cnt = - cnt st, cntindex = nat ((1 - cnt st) div 2)\<rparr>"
proof -
  define c where "c = comb st"
  define ro where "ro = nat ((1 - cnt st) div 2)"
  define rw where "rw = 1 - ro"
  define M where "M = n div 2"
  define J where "J = n div (2 * i)"
  have ci: "nat ((1 + - cnt st) div 2) = ro"
    by (simp add: ro_def)
  have ro: "ro < 2" "rw < 2" "rw \<noteq> ro"
    using assms(1) by (auto simp: ro_def rw_def)
  have len: "length (c ! ro) = M + 1" "length (c ! rw) = M + 1" "rw < length c"
    using assms(2,3) ro by (simp_all add: c_def M_def)
  define c1 where "c1 = c[rw := c ! ro]"
  have copy: "fold (\<lambda>j c. c[rw := (c ! rw)[j := c ! ro ! j]]) [0 ..< M + 1] c = c1"
    using copy_loop [of rw c ro "M + 1"] ro(3) len by (simp add: c1_def del: upt_Suc)
  have c1: "c1 ! rw = c ! ro" "c1 ! ro = c ! ro" "rw < length c1" "length (c1 ! rw) = M + 1"
    using ro(3) len by (simp_all add: c1_def)
  have JM: "J = M div i"
    by (simp add: J_def M_def div_mult2_eq)
  have row: "map (\<lambda>t. c1 ! rw ! t +
                    (\<Sum>j = 1..J. if i * j \<le> t then c1 ! ro ! (t - i * j) * (factor ^ j / fact j) else 0))
                 [0 ..< M + 1] =
             map (series_mult (nth (c ! ro)) (exp_coeff factor i)) [0 ..< M + 1]"
  proof (rule map_cong [OF refl])
    fix t assume "t \<in> set [0 ..< M + 1]"
    then have "t \<le> M" by auto
    then show "c1 ! rw ! t +
         (\<Sum>j = 1..J. if i * j \<le> t then c1 ! ro ! (t - i * j) * (factor ^ j / fact j) else 0) =
         series_mult (nth (c ! ro)) (exp_coeff factor i) t"
      unfolding c1 JM using exp_series_coeff [OF assms(4), of t M "nth (c ! ro)" factor] by simp
  qed
  have mult: "fold (\<lambda>j (c, powfactor).
                let pf = powfactor * factor / of_nat j
                in (fold (\<lambda>k c. c[rw := (c ! rw)[k - 1 :=
                             c ! rw ! (k - 1) + c ! ro ! (k - i * j - 1) * pf]])
                      [i * j + 1 ..< M + 2] c,
                    pf))
           [1 ..< J + 1] (c1, 1) =
         (c[rw := map (series_mult (nth (c ! ro)) (exp_coeff factor i)) [0 ..< M + 1]],
          factor ^ J / fact J)"
    unfolding multiples_loop [OF c1(3) ro(3) c1(4)] row by (simp add: c1_def)
  have "series_step n i factor st =
      (case fold (\<lambda>j (c, powfactor).
                let pf = powfactor * factor / of_nat j
                in (fold (\<lambda>k c. c[rw := (c ! rw)[k - 1 :=
                             c ! rw ! (k - 1) + c ! ro ! (k - i * j - 1) * pf]])
                      [i * j + 1 ..< M + 2] c,
                    pf))
           [1 ..< J + 1] (fold (\<lambda>j c. c[rw := (c ! rw)[j := c ! ro ! j]]) [0 ..< M + 1] c, 1) of
         (c2, pf) \<Rightarrow> \<lparr>comb = c2, cnt = - cnt st, cntindex = ro\<rparr>)"
    unfolding series_step_def
    by (simp only: Let_def ci rw_def c_def M_def J_def)
  also have "\<dots> = \<lparr>comb = c[rw := map (series_mult (nth (c ! ro)) (exp_coeff factor i)) [0 ..< M + 1]],
      cnt = - cnt st, cntindex = ro\<rparr>"
    unfolding copy mult by (simp only: prod.case)
  finally show ?thesis
    by (simp only: c_def ro_def rw_def M_def)
qed

lemma series_mult_cong:
  "(\<And>u. u \<le> t \<Longrightarrow> p u = p' u) \<Longrightarrow> series_mult p q t = series_mult p' q t"
  unfolding series_mult_def by (rule sum.cong) simp_all

lemma series_loop_Suc:
  "series_loop traces n [1 ..< Suc i + 1] st =
     series_step n (Suc i) (traces ! i / (2 * of_nat (Suc i))) (series_loop traces n [1 ..< i + 1] st)"
  by (simp add: series_loop_def)

lemma series_loop_invariant:
  fixes traces :: "'a::field_char_0 list" and n :: nat
  defines "M \<equiv> n div 2"
  defines "st \<equiv> \<lambda>i. series_loop traces n [1 ..< i + 1] (series_init M)"
  shows "(cnt (st i) = 1 \<or> cnt (st i) = - 1) \<and> length (comb (st i)) = 2 \<and>
         (\<forall>r\<in>set (comb (st i)). length r = M + 1) \<and>
         comb (st i) ! nat ((1 - cnt (st i)) div 2) = map (gf_prod traces i) [0 ..< M + 1] \<and>
         (0 < i \<longrightarrow> cntindex (st i) = nat ((1 + cnt (st i)) div 2))"
proof (induction i)
  case 0
  have "(replicate (M + 1) (0::'a))[0 := 1] = map (gf_prod traces 0) [0 ..< M + 1]"
    by (rule nth_equalityI) (auto simp del: upt_Suc replicate_Suc)
  then show ?case
    by (simp add: st_def series_loop_def series_init_def del: upt_Suc replicate_Suc)
next
  case (Suc i)
  define s where "s = st i"
  define ro where "ro = nat ((1 - cnt s) div 2)"
  define f where "f = traces ! i / (2 * of_nat (Suc i))"
  from Suc have inv: "cnt s = 1 \<or> cnt s = - 1" "length (comb s) = 2"
      "\<forall>r\<in>set (comb s). length r = n div 2 + 1"
      "comb s ! ro = map (gf_prod traces i) [0 ..< M + 1]"
    by (simp_all add: s_def ro_def M_def)
  have step: "st (Suc i) = \<lparr>comb = (comb s)[1 - ro :=
         map (series_mult (nth (comb s ! ro)) (exp_coeff f (Suc i))) [0 ..< n div 2 + 1]],
      cnt = - cnt s, cntindex = ro\<rparr>"
  proof -
    have "st (Suc i) = series_loop traces n [1 ..< Suc i + 1] (series_init M)"
      by (simp only: st_def)
    also have "\<dots> = series_step n (Suc i) (traces ! i / (2 * of_nat (Suc i)))
        (series_loop traces n [1 ..< i + 1] (series_init M))"
      by (rule series_loop_Suc)
    also have "\<dots> = series_step n (Suc i) f s"
      by (simp only: s_def st_def f_def)
    also have "\<dots> = \<lparr>comb = (comb s)[1 - nat ((1 - cnt s) div 2) :=
         map (series_mult (nth (comb s ! nat ((1 - cnt s) div 2))) (exp_coeff f (Suc i))) [0 ..< n div 2 + 1]],
      cnt = - cnt s, cntindex = nat ((1 - cnt s) div 2)\<rparr>"
      by (rule series_step_rows [OF inv(1,2,3)]) simp
    finally show ?thesis by (simp only: ro_def)
  qed
  have ro: "ro < 2" "1 - ro < 2" "nat ((1 - - cnt s) div 2) = 1 - ro" "ro = nat ((1 + - cnt s) div 2)"
    using inv(1) by (auto simp: ro_def)
  have row: "map (series_mult (nth (comb s ! ro)) (exp_coeff f (Suc i))) [0 ..< n div 2 + 1] =
      map (gf_prod traces (Suc i)) [0 ..< M + 1]"
    unfolding M_def
  proof (rule map_cong [OF refl])
    fix t assume "t \<in> set [0 ..< n div 2 + 1]"
    then have t: "t \<le> M" by (auto simp: M_def)
    have "series_mult (nth (comb s ! ro)) (exp_coeff f (Suc i)) t =
        series_mult (gf_prod traces i) (exp_coeff f (Suc i)) t"
      by (rule series_mult_cong) (use t in \<open>simp add: inv(4) del: upt_Suc\<close>)
    then show "series_mult (nth (comb s ! ro)) (exp_coeff f (Suc i)) t = gf_prod traces (Suc i) t"
      by (simp add: f_def)
  qed
  have c1: "cnt (st (Suc i)) = - cnt s" "cntindex (st (Suc i)) = ro"
    "comb (st (Suc i)) = (comb s)[1 - ro := map (gf_prod traces (Suc i)) [0 ..< M + 1]]"
    unfolding step row by simp_all
  have "length r = M + 1" if "r \<in> set (comb (st (Suc i)))" for r
    using that inv(3) unfolding c1
    by (auto simp: M_def simp del: upt_Suc dest!: subsetD [OF set_update_subset_insert])
  moreover have "comb (st (Suc i)) ! nat ((1 - cnt (st (Suc i))) div 2) =
      map (gf_prod traces (Suc i)) [0 ..< M + 1]"
    unfolding c1 ro(3) using ro(2) inv(2) by simp
  moreover have "cntindex (st (Suc i)) = nat ((1 + cnt (st (Suc i))) div 2)"
    unfolding c1 by (rule ro(4))
  moreover have "cnt (st (Suc i)) = 1 \<or> cnt (st (Suc i)) = - 1"
    unfolding c1 using inv(1) by auto
  moreover have "length (comb (st (Suc i))) = 2"
    unfolding c1 using inv(2) by simp
  ultimately show ?case by blast
qed

lemma current_row:
  fixes traces :: "'a::field_char_0 list"
  assumes "0 < i"
  shows "(let st = series_loop traces n [1 ..< i + 1] (series_init (n div 2))
          in comb st ! (1 - cntindex st)) = map (gf_prod traces i) [0 ..< n div 2 + 1]"
proof -
  define st where "st = series_loop traces n [1 ..< i + 1] (series_init (n div 2))"
  have inv: "cnt st = 1 \<or> cnt st = - 1"
    "comb st ! nat ((1 - cnt st) div 2) = map (gf_prod traces i) [0 ..< n div 2 + 1]"
    "cntindex st = nat ((1 + cnt st) div 2)"
    using series_loop_invariant [of traces n i] assms unfolding st_def by blast+
  have "1 - cntindex st = nat ((1 - cnt st) div 2)"
    using inv(1) unfolding inv(3) by auto
  then show ?thesis
    unfolding Let_def st_def [symmetric] using inv(2) by simp
qed

text \<open>
  Claim C2.  In exact arithmetic, for every subset index \<open>x\<close> and every \<open>i\<close> in
  \<open>1, \<dots>, m\<close> (\<open>m = n div 2 < 64\<close>), after the round for trace index \<open>i\<close> the current row
  \<^verbatim>\<open>comb[1 - cntindex]\<close> holds exactly the coefficients up to degree \<open>m\<close> of the product
  over \<open>i' \<le> i\<close> of \<open>exp (\<tau>[i'-1] z ^ i' / (2 i'))\<close>; so the coefficient the worker
  extracts after \<open>i = m\<close> is the \<open>z ^ m\<close> coefficient of the full product.
\<close>

theorem generating_function_rows:
  assumes "n div 2 < 64" "1 \<le> i" "i \<le> n div 2"
  shows "(let tau = subset_traces pt mat n x;
              st = series_loop tau n [1 ..< i + 1] (series_init ((n div 2) mod 256))
          in comb st ! (1 - cntindex st) = map (gf_prod tau i) [0 ..< n div 2 + 1]) \<and>
         extracted pt mat n x = gf_prod (subset_traces pt mat n x) (n div 2) (n div 2)"
proof -
  define tau where "tau = subset_traces pt mat n x"
  have m: "(n div 2) mod 256 = n div 2"
    using assms(1) by simp
  have i: "0 < i" "0 < n div 2"
    using assms(2,3) by simp_all
  have "comb (final_state pt mat n x) ! (1 - cntindex (final_state pt mat n x)) =
      map (gf_prod tau (n div 2)) [0 ..< n div 2 + 1]"
    using current_row [OF i(2), of tau n]
    unfolding final_state_def Let_def m tau_def [symmetric] .
  then have "extracted pt mat n x = map (gf_prod tau (n div 2)) [0 ..< n div 2 + 1] ! (n div 2)"
    by (simp only: extracted_def Let_def)
  also have "\<dots> = gf_prod tau (n div 2) (n div 2)"
    by (simp del: upt_Suc)
  finally show ?thesis
    using current_row [OF i(1), of tau n]
    unfolding Let_def m tau_def [symmetric] by blast
qed

text \<open>The statement at the matrix \<open>[[0, 1], [1, 0]]\<close>, \<open>x = 1\<close>, \<open>i = 1\<close>.\<close>

theorem generating_function_rows_witness:
  "(2::nat) div 2 < 64 \<and> (1::nat) \<le> 1 \<and> (1::nat) \<le> 2 div 2 \<and>
   extracted (powtrace_real diagonal_eigenvalues) [0, 1, 1, 0] 2 1 =
     gf_prod (subset_traces (powtrace_real diagonal_eigenvalues) [0, 1, 1, 0] 2 1) (2 div 2) (2 div 2)"
proof -
  have h: "(2::nat) div 2 < 64" "(1::nat) \<le> 1" "(1::nat) \<le> 2 div 2" by simp_all
  show ?thesis
    using generating_function_rows [OF h, of "powtrace_real diagonal_eigenvalues" "[0, 1, 1, 0]" 1] h
    by blast
qed

section \<open>The range of a chunk\<close>

lemma fold_plus_sum:
  "fold (\<lambda>x res. res + f x) xs a = a + (\<Sum>x\<leftarrow>xs. f x)" for a :: "'a::comm_monoid_add"
  by (induction xs arbitrary: a) (simp_all add: add.assoc)

lemma do_chunk_sum:
  assumes "unat X + unat chunksize < 2 ^ 64"
  shows "do_chunk pt mat n X chunksize =
     (\<Sum>k = unat X ..< unat X + unat chunksize. summand pt mat n (of_nat k))"
proof -
  have "unat (X + chunksize) = unat X + unat chunksize"
    using assms by (simp add: unat_add_lem [THEN iffD1])
  then show ?thesis
    by (simp add: do_chunk_def fold_plus_sum interv_sum_list_conv_sum_set_nat)
qed

lemma do_chunk_loops_sum:
  assumes "(unat X + 1) * unat chunksize < 2 ^ 64"
  shows "do_chunk_loops pt mat C D n X chunksize =
     (\<Sum>k = unat X * unat chunksize ..< (unat X + 1) * unat chunksize.
        summand_loops pt mat C D n (of_nat k))"
proof (cases "chunksize = 0")
  case True
  then show ?thesis by (simp add: do_chunk_loops_def)
next
  case False
  then have pos: "0 < unat chunksize" by (simp add: unat_gt_0)
  then have "(unat X + 1) * 1 \<le> (unat X + 1) * unat chunksize"
    by (intro mult_le_mono2) simp
  with assms have "unat X + unat (1::ull) < 2 ^ 64" by simp
  then have X1: "unat (X + 1) = unat X + 1"
    by (simp add: unat_add_lem [THEN iffD1])
  have "unat X * unat chunksize \<le> (unat X + 1) * unat chunksize" by simp
  with assms have "unat X * unat chunksize < 2 ^ 64" by simp
  then have lo: "unat (X * chunksize) = unat X * unat chunksize"
    by (simp add: unat_mult_lem [THEN iffD1])
  have "unat (X + 1) * unat chunksize < 2 ^ 64"
    using assms by (simp only: X1)
  then have hi: "unat ((X + 1) * chunksize) = (unat X + 1) * unat chunksize"
    by (simp add: unat_mult_lem [THEN iffD1] X1)
  show ?thesis
    unfolding do_chunk_loops_def lo hi
    by (simp add: fold_plus_sum interv_sum_list_conv_sum_set_nat)
qed

text \<open>
  Claim C1 at a start index other than 0.  The plain worker sums the summands of
  \<open>X, \<dots>, X + C - 1\<close> (lemma \<open>do_chunk_sum\<close>); the loop worker sums those of
  \<open>X C, \<dots>, (X + 1) C - 1\<close> (lemma \<open>do_chunk_loops_sum\<close>).  For the matrix pairing
  0 with 1 and 2 with 3, zero diagonals, \<open>X = 1\<close> and \<open>C = 2\<close>: the loop worker returns
  the sum over \<open>x = 2, 3\<close>, which is 2, where the sum over \<open>x = 1, 2\<close> is \<open>- 2\<close>, the
  value the plain worker returns.
\<close>

theorem do_chunk_loops_rank_range:
  "do_chunk_loops (powtrace_real diagonal_eigenvalues)
     [0, 1, 0, 0, 1, 0, 0, 0, 0, 0, 0, 1, 0, 0, 1, 0] [0, 0, 0, 0] [0, 0, 0, 0] 4 1 2 = 2 \<and>
   summand_loops (powtrace_real diagonal_eigenvalues)
     [0, 1, 0, 0, 1, 0, 0, 0, 0, 0, 0, 1, 0, 0, 1, 0] [0, 0, 0, 0] [0, 0, 0, 0] 4 1 +
   summand_loops (powtrace_real diagonal_eigenvalues)
     [0, 1, 0, 0, 1, 0, 0, 0, 0, 0, 0, 1, 0, 0, 1, 0] [0, 0, 0, 0] [0, 0, 0, 0] 4 2 = - 2 \<and>
   do_chunk (powtrace_real diagonal_eigenvalues)
     [0, 1, 0, 0, 1, 0, 0, 0, 0, 0, 0, 1, 0, 0, 1, 0] 4 1 2 = - 2"
  by code_simp

section \<open>Zero diagonal: the loop hafnian is the hafnian\<close>

lemma fold_project:
  assumes "\<And>x s. h (f x s) = g x (h s)"
  shows "h (fold f xs s) = fold g xs (h s)"
  by (induction xs arbitrary: s) (simp_all add: assms)

lemma gather_inner_fst:
  "fst (fold (\<lambda>j p. ((fst p)[e j := v j], (snd p)[e j := v j])) xs s) =
     fold (\<lambda>j B. B[e j := v j]) xs (fst s)"
  by (rule fold_project) simp

lemma gather_inner_snd:
  "snd (fold (\<lambda>j p. ((fst p)[e j := v j], (snd p)[e j := v j])) xs s) =
     fold (\<lambda>j B. B[e j := v j]) xs (snd s)"
  by (rule fold_project) simp

lemma gather_B:
  "fst (gather mat C D n pos k) = reduced_matrix mat n pos k"
  unfolding gather_def reduced_matrix_def
  by (subst fold_project [where h = fst
        and g = "\<lambda>i. fold (\<lambda>j B. B[i * k + j := mat ! (pos ! i * n + xor (pos ! j) 1)]) [0 ..< k]"])
     (simp_all add: split_def Let_def gather_inner_fst)

lemma gather_Bp:
  "fst (snd (gather mat C D n pos k)) = reduced_matrix mat n pos k"
  unfolding gather_def reduced_matrix_def
  by (subst fold_project [where h = "\<lambda>s. fst (snd s)"
        and g = "\<lambda>i. fold (\<lambda>j B. B[i * k + j := mat ! (pos ! i * n + xor (pos ! j) 1)]) [0 ..< k]"])
     (simp_all add: split_def Let_def gather_inner_snd)

lemma gather_D1:
  "snd (snd (snd (gather mat C D n pos k))) = map (\<lambda>i. D ! (pos ! i)) [0 ..< k]"
proof -
  have "snd (snd (snd (gather mat C D n pos k))) =
      fold (\<lambda>i D1. D1[i := D ! (pos ! i)]) [0 ..< k] (replicate k 0)"
    unfolding gather_def
    by (subst fold_project [where h = "\<lambda>s. snd (snd (snd s))" and g = "\<lambda>i D1. D1[i := D ! (pos ! i)]"])
       (simp_all add: split_def Let_def)
  also have "\<dots> = map (\<lambda>i. D ! (pos ! i)) [0 ..< k]"
    using fold_update_all [of "replicate k 0" k "\<lambda>i _. D ! (pos ! i)"] by simp
  finally show ?thesis .
qed

lemma diagonal_nth: "p < n \<Longrightarrow> diagonal mat n ! p = mat ! (p * n + p)"
  unfolding diagonal_def
  using fold_update_all [of "replicate n 0" n "\<lambda>i _. mat ! (i * n + i)"] by simp

lemma loop_factor_zero:
  fixes traces :: "'a::field_char_0 list"
  assumes "\<forall>t<k. D1 ! t = 0"
  shows "loop_factor traces C1 D1 k i = traces ! (i - 1) / (2 * of_nat i)"
proof -
  have "fold (\<lambda>t s. s + C1 ! t * D1 ! t) [0 ..< k] 0 = (\<Sum>t<k. C1 ! t * D1 ! t)"
    by (simp add: fold_add)
  also have "\<dots> = 0"
    using assms by simp
  finally show ?thesis
    by (simp add: loop_factor_def Let_def)
qed

lemma loops_fold:
  fixes traces :: "'a::field_char_0 list"
  assumes "\<forall>t<k. D1 ! t = 0"
  shows "fst (fold (loops_step traces B D1 k n) is (st, C1)) = series_loop traces n is st"
proof (induction "is" arbitrary: st C1)
  case Nil
  then show ?case by (simp add: series_loop_def)
next
  case (Cons i "is")
  show ?case
    using Cons [of "series_step n i (traces ! (i - 1) / (2 * of_nat i)) st" "advance_C1 B C1 k"]
    by (simp add: loops_step_def loop_factor_zero [OF assms] series_loop_def)
qed

lemma pos_below:
  assumes "m \<le> 64" "t < 2 * subset_size x m"
  shows "snd (find2 (dec2bin x m) m) ! t < 2 * m"
proof -
  have m: "m \<le> 128" using assms(1) by simp
  define pos where "pos = concat (map (\<lambda>i. [2 * i, Suc (2 * i)]) (msb_positions x m))"
  have f: "snd (find2 (dec2bin x m) m) = pos"
    by (simp add: find2_dec2bin [OF m] pos_def)
  have "length pos = 2 * subset_size x m"
    unfolding pos_def doubled_length length_msb_positions ..
  with assms(2) have "pos ! t \<in> set pos" by simp
  then have "pos ! t < 2 * m"
    unfolding pos_def doubled_set set_msb_positions by auto
  then show ?thesis by (simp only: f)
qed

lemma final_state_loops_eq:
  fixes mat :: "'a::field_char_0 list"
  assumes "n div 2 < 64" "\<forall>p<n. mat ! (p * n + p) = 0"
  shows "final_state_loops pt mat C (diagonal mat n) n x = final_state pt mat n x"
proof -
  define m where "m = n div 2"
  have m: "(n div 2) mod 256 = m" "m \<le> 64" "m \<le> 128"
    using assms(1) by (simp_all add: m_def)
  define k where "k = 2 * subset_size x m"
  define pos where "pos = snd (find2 (dec2bin x m) m)"
  have f: "find2 (dec2bin x m) m = (k, pos)"
    by (simp add: find2_dec2bin [OF m(3)] k_def pos_def)
  define g where "g = gather mat C (diagonal mat n) n pos k"
  define B where "B = reduced_matrix mat n pos k"
  have g: "fst g = B" "fst (snd g) = B"
    "snd (snd (snd g)) = map (\<lambda>i. diagonal mat n ! (pos ! i)) [0 ..< k]"
    by (simp_all add: g_def B_def gather_B gather_Bp gather_D1)
  have D1: "\<forall>t<k. snd (snd (snd g)) ! t = 0"
  proof (intro allI impI)
    fix t assume t: "t < k"
    then have "pos ! t < 2 * m"
      unfolding pos_def k_def by (intro pos_below m(2))
    then have "pos ! t < n" by (simp add: m_def)
    then have "diagonal mat n ! (pos ! t) = 0"
      using assms(2) by (simp add: diagonal_nth)
    then show "snd (snd (snd g)) ! t = 0"
      using t by (simp add: g(3))
  qed
  have "final_state_loops pt mat C (diagonal mat n) n x =
      fst (fold (loops_step (pt (fst (snd g)) k m) (fst g) (snd (snd (snd g))) k n)
             [1 ..< n div 2 + 1] (series_init m, fst (snd (snd g))))"
    by (simp add: final_state_loops_def Let_def m(1) f g_def split_def)
  also have "\<dots> = series_loop (pt B k m) n [1 ..< n div 2 + 1] (series_init m)"
    unfolding g(1,2) by (rule loops_fold [OF D1])
  also have "\<dots> = final_state pt mat n x"
    by (simp add: final_state_def subset_traces_def Let_def m(1) f B_def)
  finally show ?thesis .
qed

lemma summand_loops_eq:
  fixes mat :: "'a::field_char_0 list"
  assumes "n div 2 < 64" "\<forall>p<n. mat ! (p * n + p) = 0"
  shows "summand_loops pt mat C (diagonal mat n) n x = summand pt mat n x"
  by (simp add: summand_loops_def summand_def extracted_def Let_def
      final_state_loops_eq [OF assms])

lemma isqrt_square: "isqrt (n * n) = n"
proof (rule antisym)
  have "isqrt (n * n) * isqrt (n * n) \<le> n * n" by (rule isqrt_sq)
  then show "isqrt (n * n) \<le> n"
    using power2_nat_le_eq_le [of "isqrt (n * n)" n] by (simp add: power2_eq_square)
  show "n \<le> isqrt (n * n)" by (rule isqrt_max) simp
qed


lemma do_chunk_loops_eq:
  fixes mat :: "'a::field_char_0 list"
  assumes "n div 2 < 64" "\<forall>p<n. mat ! (p * n + p) = 0"
  shows "do_chunk_loops pt mat C (diagonal mat n) n 0 chunksize = do_chunk pt mat n 0 chunksize"
  by (simp add: do_chunk_loops_def do_chunk_def summand_loops_eq [OF assms])

text \<open>
  Claim C9.  For every square matrix of even order \<open>n\<close> (\<open>n div 2 < 64\<close>) whose diagonal
  entries are all zero, \<^verbatim>\<open>loop_hafnian\<close> returns exactly the value \<^verbatim>\<open>hafnian\<close> returns
  (in exact arithmetic, for the same overload of \<^verbatim>\<open>powtrace\<close>).
\<close>

theorem loop_hafnian_zero_diagonal:
  fixes mat :: "'a::field_char_0 list"
  assumes "length mat = n * n" "even n" "n div 2 < 64" "\<forall>p<n. mat ! (p * n + p) = 0"
  shows "loop_hafnian pt mat = hafnian pt mat"
  by (simp add: loop_hafnian_def hafnian_def Let_def assms(1) isqrt_square
      do_chunk_loops_eq [OF assms(3,4)])

text \<open>The statement at the matrix \<open>[[0, 1], [1, 0]]\<close>, whose hafnian is 1.\<close>

theorem loop_hafnian_zero_diagonal_witness:
  "loop_hafnian (powtrace_real diagonal_eigenvalues) [0, 1, 1, 0] =
     hafnian (powtrace_real diagonal_eigenvalues) [0, 1, 1, 0] \<and>
   hafnian (powtrace_real diagonal_eigenvalues) [0, 1, 1, 0] = Inr 1"
proof -
  have h: "length [0, 1, 1, 0 :: real] = 2 * 2" "even (2::nat)" "(2::nat) div 2 < 64"
    "\<forall>p<2. [0, 1, 1, 0 :: real] ! (p * 2 + p) = 0"
    by (simp_all add: less_Suc_eq numeral_2_eq_2)
  have v: "hafnian (powtrace_real diagonal_eigenvalues) [0, 1, 1, 0] = Inr 1"
    by code_simp
  show ?thesis
    using loop_hafnian_zero_diagonal [OF h, of "powtrace_real diagonal_eigenvalues"] v by simp
qed

section \<open>The dimension check of the drivers\<close>

text \<open>
  Claim C5 (as amended).  For every input whose order \<open>\<lfloor>\<surd>|A|\<rfloor>\<close> is odd, \<^verbatim>\<open>hafnian\<close> and
  \<^verbatim>\<open>loop_hafnian\<close> fail their assertion before computing anything.
\<close>

theorem odd_order_rejected:
  assumes "odd (isqrt (length mat))"
  shows "hafnian pt mat = Inl EvenDimensionRequired \<and>
         loop_hafnian pt mat = Inl EvenDimensionRequired"
  using assms by (simp add: hafnian_def loop_hafnian_def Let_def odd_iff_mod_2_eq_one)

text \<open>The statement at a matrix of order 3.\<close>

theorem odd_order_rejected_witness:
  "odd (isqrt (length [1, 2, 3, 4, 5, 6, 7, 8, 9 :: real])) \<and>
   hafnian (powtrace_real diagonal_eigenvalues) [1, 2, 3, 4, 5, 6, 7, 8, 9] = Inl EvenDimensionRequired \<and>
   loop_hafnian (powtrace_real diagonal_eigenvalues) [1, 2, 3, 4, 5, 6, 7, 8, 9] = Inl EvenDimensionRequired"
proof -
  have "isqrt (length [1, 2, 3, 4, 5, 6, 7, 8, 9 :: real]) = 3" by code_simp
  then have h: "odd (isqrt (length [1, 2, 3, 4, 5, 6, 7, 8, 9 :: real]))" by simp
  show ?thesis
    using odd_order_rejected [OF h, of "powtrace_real diagonal_eigenvalues"] h by simp
qed

text \<open>
  Claim C5 as worded, with every element count that is not a perfect square rejected:
  five elements give \<open>n = \<lfloor>\<surd>5\<rfloor> = 2\<close>, the assertion holds, and \<^verbatim>\<open>hafnian\<close> returns a
  value computed from the first four and the fifth is ignored.  (With \<open>m = 1\<close> only the
  first power trace is used, which is the trace \<open>mat[1] + mat[2]\<close> for every exact solver.)
\<close>

theorem not_square_accepted_counterexample:
  "isqrt (length [1, 2, 3, 4, 5 :: real]) * isqrt (length [1, 2, 3, 4, 5 :: real])
     \<noteq> length [1, 2, 3, 4, 5 :: real] \<and>
   hafnian (powtrace_real diagonal_eigenvalues) [1, 2, 3, 4, 5] = Inr (5 / 2)"
  by code_simp

text \<open>
  \<^verbatim>\<open>hafnian_int\<close> has no assertion: on a matrix of order 1 it takes \<open>n = 0\<close> and returns
  \<open>g[0] = 1\<close>.
\<close>

lemma hafnian_int_unchecked: "hafnian_int [5] = Some (Inr 1)"
  by code_simp

end
